theory Spec2Isabelle
  imports Complex_Main "HOL-Library.Word" "HOL-Library.Multiset"
begin

section \<open>Data model\<close>

text \<open>
  The program is \<^verbatim>\<open>examples/bmm350_forced_mode/bmm350_forced_mode.c\<close>. Its only
  function besides \<^verbatim>\<open>main\<close> is \<^verbatim>\<open>calculate_noise\<close>, which computes a per-axis RMS noise
  level over \<^verbatim>\<open>MAG_SAMPLE_COUNT\<close> samples in C \<^verbatim>\<open>double\<close> arithmetic.

  The arithmetic of type \<^verbatim>\<open>double\<close> is kept as a parameter of the embedding: a record of
  the operations the program uses. Two instances are given below: \<open>binary64\<close>, the IEEE 754
  double format with round-to-nearest-even, which is what the program runs on, and
  \<open>exact\<close>, arithmetic on the reals without rounding, which is what the specification's
  formulas mean when read as mathematics.
\<close>

record 'd arith =
  flit :: "int \<Rightarrow> 'd"
  fadd :: "'d \<Rightarrow> 'd \<Rightarrow> 'd"
  fsub :: "'d \<Rightarrow> 'd \<Rightarrow> 'd"
  fmul :: "'d \<Rightarrow> 'd \<Rightarrow> 'd"
  fdiv :: "'d \<Rightarrow> 'd \<Rightarrow> 'd"
  fsqrt :: "'d \<Rightarrow> 'd"

text \<open>
  \<^verbatim>\<open>struct bmm350_mag_temp_data\<close> is declared in \<^verbatim>\<open>bmm350.h\<close>, which is not part of the
  sources at hand; its four fields are the ones this file reads (\<^verbatim>\<open>x\<close>, \<^verbatim>\<open>y\<close>, \<^verbatim>\<open>z\<close>,
  \<^verbatim>\<open>temperature\<close>). \<^verbatim>\<open>struct bmm350_mag_data\<close> is declared in the file itself. The field
  names carry a prefix because a record field is a constant in HOL.
\<close>

record 'd bmm350_mag_temp_data =
  mtd_x :: 'd
  mtd_y :: 'd
  mtd_z :: 'd
  temperature :: 'd

record 'd bmm350_mag_data =
  md_x :: 'd
  md_y :: 'd
  md_z :: 'd

text \<open>The three values \<^verbatim>\<open>noise_level_x\<close>, \<^verbatim>\<open>noise_level_y\<close>, \<^verbatim>\<open>noise_level_z\<close> that
  \<^verbatim>\<open>calculate_noise\<close> computes and prints.\<close>

record 'd noise_level =
  noise_level_x :: 'd
  noise_level_y :: 'd
  noise_level_z :: 'd

text \<open>Reading an array element that does not exist is undefined behaviour in C; the
  embedding reports it as a fault instead of returning an unspecified value.\<close>

datatype fault = Out_Of_Bounds

definition MAG_SAMPLE_COUNT :: "8 word" where
  "MAG_SAMPLE_COUNT = 100"

section \<open>IEEE 754 binary64 arithmetic\<close>

text \<open>
  A double is a NaN, an infinity with its sign (\<open>True\<close> for negative), or a finite value,
  kept as the rational number it denotes. The two zeros are identified: no operation of
  this program tells them apart (it never divides by a variable and never inspects a
  sign). Every operation computes the exact rational result and rounds it once, to
  nearest with ties to even, as IEEE 754 prescribes.
\<close>

datatype double = NaN | Inf bool | Fin rat

fun ilog2_nat :: "nat \<Rightarrow> nat" where
  "ilog2_nat n = (if n < 2 then 0 else Suc (ilog2_nat (n div 2)))"

declare ilog2_nat.simps [simp del]

text \<open>\<open>ilog2 q\<close> is the binade of a positive rational: \<open>2 powi ilog2 q \<le> q < 2 powi (ilog2 q + 1)\<close>.\<close>

definition ilog2 :: "rat \<Rightarrow> int" where
  "ilog2 q = (let (n, d) = quotient_of q;
                  g = int (ilog2_nat (nat n)) - int (ilog2_nat (nat d))
              in if 2 powi g \<le> q then g else g - 1)"

definition round_half_even :: "rat \<Rightarrow> int" where
  "round_half_even q =
     (let f = \<lfloor>q\<rfloor>; r = q - of_int f
      in if r < 1 / 2 then f else if 1 / 2 < r then f + 1 else if even f then f else f + 1)"

text \<open>The exponent of the unit in the last place in binade \<open>k\<close>: 53 significant bits,
  and the subnormal spacing \<open>2 powi - 1074\<close> at the bottom.\<close>

definition ulp_exp :: "int \<Rightarrow> int" where
  "ulp_exp k = max (k - 52) (- 1074)"

definition overflow_threshold :: rat where
  "overflow_threshold = 2 ^ 1024"

definition round_pos :: "rat \<Rightarrow> double" where
  "round_pos q =
     (let e = ulp_exp (ilog2 q);
          r = of_int (round_half_even (q / 2 powi e)) * 2 powi e
      in if overflow_threshold \<le> r then Inf False else Fin r)"

fun double_neg :: "double \<Rightarrow> double" where
  "double_neg NaN = NaN"
| "double_neg (Inf s) = Inf (\<not> s)"
| "double_neg (Fin a) = Fin (- a)"

definition round_double :: "rat \<Rightarrow> double" where
  "round_double q =
     (if q = 0 then Fin 0 else if 0 < q then round_pos q else double_neg (round_pos (- q)))"

text \<open>The values a double can hold: zero, or a multiple of the unit in the last place of
  its binade, below the overflow threshold.\<close>

definition on_grid :: "rat \<Rightarrow> bool" where
  "on_grid q \<longleftrightarrow> (let t = \<bar>q\<bar> / 2 powi ulp_exp (ilog2 \<bar>q\<bar>) in of_int \<lfloor>t\<rfloor> = t)"

definition representable :: "rat \<Rightarrow> bool" where
  "representable q \<longleftrightarrow> q = 0 \<or> (on_grid q \<and> \<bar>q\<bar> < overflow_threshold)"

fun is_finite :: "double \<Rightarrow> bool" where
  "is_finite (Fin a) = True"
| "is_finite _ = False"

text \<open>The C comparison \<^verbatim>\<open>d >= 0\<close>: false for a NaN.\<close>

fun double_nonneg :: "double \<Rightarrow> bool" where
  "double_nonneg NaN = False"
| "double_nonneg (Inf s) = (\<not> s)"
| "double_nonneg (Fin a) = (0 \<le> a)"

fun double_add :: "double \<Rightarrow> double \<Rightarrow> double" where
  "double_add (Fin a) (Fin b) = round_double (a + b)"
| "double_add (Fin a) (Inf t) = Inf t"
| "double_add (Inf s) (Fin b) = Inf s"
| "double_add (Inf s) (Inf t) = (if s = t then Inf s else NaN)"
| "double_add _ _ = NaN"

definition double_sub :: "double \<Rightarrow> double \<Rightarrow> double" where
  "double_sub a b = double_add a (double_neg b)"

fun double_mul :: "double \<Rightarrow> double \<Rightarrow> double" where
  "double_mul (Fin a) (Fin b) = round_double (a * b)"
| "double_mul (Fin a) (Inf t) = (if a = 0 then NaN else Inf ((a < 0) \<noteq> t))"
| "double_mul (Inf s) (Fin b) = (if b = 0 then NaN else Inf (s \<noteq> (b < 0)))"
| "double_mul (Inf s) (Inf t) = Inf (s \<noteq> t)"
| "double_mul _ _ = NaN"

fun double_div :: "double \<Rightarrow> double \<Rightarrow> double" where
  "double_div (Fin a) (Fin b) =
     (if b = 0 then (if a = 0 then NaN else Inf (a < 0)) else round_double (a / b))"
| "double_div (Fin a) (Inf t) = Fin 0"
| "double_div (Inf s) (Fin b) = Inf (s \<noteq> (b < 0))"
| "double_div _ _ = NaN"

text \<open>The integer square root, bit by bit from the top.\<close>

fun isqrt_bits :: "nat \<Rightarrow> nat \<Rightarrow> nat \<Rightarrow> nat" where
  "isqrt_bits n r 0 = r"
| "isqrt_bits n r (Suc i) = isqrt_bits n (if (r + 2 ^ i)\<^sup>2 \<le> n then r + 2 ^ i else r) i"

definition isqrt :: "nat \<Rightarrow> nat" where
  "isqrt n = isqrt_bits n 0 (Suc (ilog2_nat n))"

text \<open>The correctly rounded square root of a positive rational: the root lies in binade
  \<open>ilog2 a div 2\<close>; \<open>n\<close> is the root of the scaled argument rounded down, and the
  comparison with \<open>(n + 1/2)\<^sup>2\<close> decides the rounding.\<close>

definition sqrt_pos :: "rat \<Rightarrow> double" where
  "sqrt_pos a =
     (let e = ulp_exp (ilog2 a div 2);
          t = a / 2 powi (2 * e);
          n = int (isqrt (nat \<lfloor>t\<rfloor>));
          h = (of_int n + 1 / 2)\<^sup>2;
          m = (if t < h then n else if h < t then n + 1 else if even n then n else n + 1);
          r = of_int m * 2 powi e
      in if overflow_threshold \<le> r then Inf False else Fin r)"

fun double_sqrt :: "double \<Rightarrow> double" where
  "double_sqrt (Fin a) = (if a < 0 then NaN else if a = 0 then Fin 0 else sqrt_pos a)"
| "double_sqrt (Inf s) = (if s then NaN else Inf False)"
| "double_sqrt NaN = NaN"

definition double_of_int :: "int \<Rightarrow> double" where
  "double_of_int k = round_double (of_int k)"

definition binary64 :: "double arith" where
  "binary64 = \<lparr> flit = double_of_int, fadd = double_add, fsub = double_sub,
                 fmul = double_mul, fdiv = double_div, fsqrt = double_sqrt \<rparr>"

text \<open>Arithmetic without rounding, on the reals.\<close>

definition exact :: "real arith" where
  "exact = \<lparr> flit = of_int, fadd = (+), fsub = (-), fmul = (*), fdiv = (/), fsqrt = sqrt \<rparr>"

section \<open>The noise computation\<close>

text \<open>
  The loop of \<^verbatim>\<open>calculate_noise\<close>:
  \<^verbatim>\<open>for (index = 0; index < MAG_SAMPLE_COUNT; index++) { variance_x += ...; ... }\<close>
  with \<^verbatim>\<open>uint8_t index\<close>. The array arrives as a pointer; the list is the memory that
  belongs to it, and an index past its end is the fault \<open>Out_Of_Bounds\<close>.
\<close>

function noise_loop ::
  "'d arith \<Rightarrow> 'd bmm350_mag_temp_data list \<Rightarrow> 'd bmm350_mag_data \<Rightarrow> 8 word \<Rightarrow> 'd \<times> 'd \<times> 'd
     \<Rightarrow> fault + 'd \<times> 'd \<times> 'd" where
  "noise_loop A mag_temp_data avg_mag_data index (variance_x, variance_y, variance_z) =
     (if index < MAG_SAMPLE_COUNT then
        (if unat index < length mag_temp_data then
           noise_loop A mag_temp_data avg_mag_data (index + 1)
             (fadd A variance_x
                (fmul A (fsub A (mtd_x (mag_temp_data ! unat index)) (md_x avg_mag_data))
                        (fsub A (mtd_x (mag_temp_data ! unat index)) (md_x avg_mag_data))),
              fadd A variance_y
                (fmul A (fsub A (mtd_y (mag_temp_data ! unat index)) (md_y avg_mag_data))
                        (fsub A (mtd_y (mag_temp_data ! unat index)) (md_y avg_mag_data))),
              fadd A variance_z
                (fmul A (fsub A (mtd_z (mag_temp_data ! unat index)) (md_z avg_mag_data))
                        (fsub A (mtd_z (mag_temp_data ! unat index)) (md_z avg_mag_data))))
         else Inl Out_Of_Bounds)
      else Inr (variance_x, variance_y, variance_z))"
  by pat_completeness auto
termination
proof (relation "measure (\<lambda>(A, b, m, index, acc). 100 - unat index)")
  show "wf (measure (\<lambda>(A, b, m, index, acc). 100 - unat index))"
    by simp
next
  fix A :: "'d arith" and mag_temp_data :: "'d bmm350_mag_temp_data list"
    and avg_mag_data :: "'d bmm350_mag_data" and index :: "8 word" and acc acc' :: "'d \<times> 'd \<times> 'd"
  assume "index < MAG_SAMPLE_COUNT"
  then have below: "unat index < 100"
    by (simp add: MAG_SAMPLE_COUNT_def word_less_nat_alt)
  then have "unat (index + 1) = unat index + 1"
    by (simp add: unat_word_ariths)
  with below
  show "((A, mag_temp_data, avg_mag_data, index + 1, acc'), (A, mag_temp_data, avg_mag_data, index, acc))
          \<in> measure (\<lambda>(A, b, m, index, acc). 100 - unat index)"
    by simp
qed

declare noise_loop.simps [simp del]

text \<open>Lines 406 to 426 of the source: the accumulators start at \<^verbatim>\<open>0\<close>, the loop runs, each
  sum is divided by \<^verbatim>\<open>MAG_SAMPLE_COUNT\<close>, and the noise level is \<^verbatim>\<open>sqrt(variance) * 1000\<close>.\<close>

definition noise_levels ::
  "'d arith \<Rightarrow> 'd bmm350_mag_temp_data list \<Rightarrow> 'd bmm350_mag_data \<Rightarrow> fault + 'd noise_level" where
  "noise_levels A mag_temp_data avg_mag_data =
     (case noise_loop A mag_temp_data avg_mag_data 0 (flit A 0, flit A 0, flit A 0) of
        Inl f \<Rightarrow> Inl f
      | Inr (variance_x, variance_y, variance_z) \<Rightarrow>
          Inr \<lparr> noise_level_x =
                  fmul A (fsqrt A (fdiv A variance_x (flit A (uint MAG_SAMPLE_COUNT)))) (flit A 1000),
                noise_level_y =
                  fmul A (fsqrt A (fdiv A variance_y (flit A (uint MAG_SAMPLE_COUNT)))) (flit A 1000),
                noise_level_z =
                  fmul A (fsqrt A (fdiv A variance_z (flit A (uint MAG_SAMPLE_COUNT)))) (flit A 1000) \<rparr>)"

text \<open>The same lines with the literal \<^verbatim>\<open>1000\<close> of lines 420, 423 and 426 made a parameter
  \<open>scale\<close>. The source has no such parameter; \<open>noise_levels\<close> is the instance at
  \<^verbatim>\<open>1000\<close>. The definition serves to state how the result depends on the multiplier.\<close>

definition noise_levels_scaled ::
  "'d arith \<Rightarrow> 'd \<Rightarrow> 'd bmm350_mag_temp_data list \<Rightarrow> 'd bmm350_mag_data \<Rightarrow> fault + 'd noise_level" where
  "noise_levels_scaled A scale mag_temp_data avg_mag_data =
     (case noise_loop A mag_temp_data avg_mag_data 0 (flit A 0, flit A 0, flit A 0) of
        Inl f \<Rightarrow> Inl f
      | Inr (variance_x, variance_y, variance_z) \<Rightarrow>
          Inr \<lparr> noise_level_x =
                  fmul A (fsqrt A (fdiv A variance_x (flit A (uint MAG_SAMPLE_COUNT)))) scale,
                noise_level_y =
                  fmul A (fsqrt A (fdiv A variance_y (flit A (uint MAG_SAMPLE_COUNT)))) scale,
                noise_level_z =
                  fmul A (fsqrt A (fdiv A variance_z (flit A (uint MAG_SAMPLE_COUNT)))) scale \<rparr>)"

section \<open>Output, driver calls and the program state\<close>

text \<open>What the program writes to standard output is kept as a list of events, a
  \<^verbatim>\<open>printf\<close> with its format string and arguments; so are the calls into the sensor
  driver, each with what the driver answered.\<close>

datatype 'd printf_arg = Arg_double 'd | Arg_hex "8 word" | Arg_ulong "32 word"

text \<open>The macros naming registers, averaging factors and power modes are declared in the
  driver's headers; they are kept by name.\<close>

datatype reg = BMM350_REG_ERR_REG | BMM350_REG_INT_CTRL

datatype averaging = BMM350_NO_AVERAGING | BMM350_AVERAGING_2 | BMM350_AVERAGING_4

datatype powermode = BMM350_FORCED_MODE | BMM350_FORCED_MODE_FAST

datatype call =
    Bmm350_interface_init
  | Bmm350_init
  | Bmm350_get_pmu_cmd_status_0
  | Bmm350_get_regs reg
  | Bmm350_configure_interrupt
  | Bmm350_enable_interrupt
  | Bmm350_set_odr_performance averaging
  | Bmm350_enable_axes
  | Bmm350_set_powermode powermode
  | Bmm350_get_compensated_mag_xyz_temp_data
  | Coines_get_millis
  | Bmm350_coines_deinit

text \<open>What a driver call hands back: its return code and whatever it stores through its
  output pointer (a register byte, a time stamp, a sample). A call uses the fields that
  apply to it.\<close>

record 'd reply =
  reply_rslt :: "8 word"
  reply_byte :: "8 word"
  reply_millis :: "32 word"
  reply_data :: "'d bmm350_mag_temp_data"

datatype 'd event =
    Printf string "'d printf_arg list"
  | Print_result string "8 word"
  | Call call "'d reply"

text \<open>The driver is not part of the sources at hand. It is a parameter: a transition
  function on the state \<open>'w\<close> of the device and its handle, together with the constants
  of the driver's headers that \<^verbatim>\<open>main\<close> uses.\<close>

record ('w, 'd) driver =
  drv_call :: "call \<Rightarrow> 'w \<Rightarrow> 'd reply \<times> 'w"
  chip_id :: "'w \<Rightarrow> 8 word"
  BMM350_OK :: "8 word"
  BMM350_INT_POL_ACTIVE_HIGH :: "8 word"
  BMM350_INT_OD_PUSHPULL :: "8 word"
  BMM350_ENABLE :: "8 word"
  BMM350_DRDY_DATA_REG_EN_MSK :: "8 word"

text \<open>The state of the program: the device, the output so far, and the variables of
  \<^verbatim>\<open>main\<close> that live across its parts.\<close>

record ('w, 'd) state =
  m_dev :: 'w
  events :: "'d event list"
  m_rslt :: "8 word"
  m_mag_temp_data :: "'d bmm350_mag_temp_data"
  m_get_mag_temp_data :: "'d bmm350_mag_temp_data list"
  m_avg_mag_data :: "'d bmm350_mag_data"

definition printf :: "string \<Rightarrow> 'd printf_arg list \<Rightarrow> ('w, 'd) state \<Rightarrow> ('w, 'd) state" where
  "printf fmt args s = s\<lparr>events := events s @ [Printf fmt args]\<rparr>"

text \<open>\<^verbatim>\<open>calculate_noise\<close> as a whole: the computation, then the two \<^verbatim>\<open>printf\<close> calls. It
  returns what it prints.\<close>

definition calculate_noise ::
  "'d arith \<Rightarrow> 'd bmm350_mag_temp_data list \<Rightarrow> 'd bmm350_mag_data \<Rightarrow> fault + 'd event list" where
  "calculate_noise A mag_temp_data avg_mag_data =
     (case noise_levels A mag_temp_data avg_mag_data of
        Inl f \<Rightarrow> Inl f
      | Inr n \<Rightarrow>
          Inr [Printf ''\<newline>Noise level x (nTrms), Noise level y (nTrms), Noise level z (nTrms)\<newline>'' [],
               Printf ''%lf, %lf, %lf\<newline>''
                 [Arg_double (noise_level_x n), Arg_double (noise_level_y n), Arg_double (noise_level_z n)]])"

text \<open>The statement \<^verbatim>\<open>calculate_noise(get_mag_temp_data, avg_mag_data);\<close> of \<^verbatim>\<open>main\<close>.\<close>

definition call_calculate_noise :: "'d arith \<Rightarrow> ('w, 'd) state \<Rightarrow> fault + ('w, 'd) state" where
  "call_calculate_noise A s =
     (case calculate_noise A (m_get_mag_temp_data s) (m_avg_mag_data s) of
        Inl f \<Rightarrow> Inl f
      | Inr out \<Rightarrow> Inr (s\<lparr>events := events s @ out\<rparr>))"

section \<open>The program \<^verbatim>\<open>main\<close>\<close>

definition api :: "('w, 'd) driver \<Rightarrow> call \<Rightarrow> ('w, 'd) state \<Rightarrow> 'd reply \<times> ('w, 'd) state" where
  "api D c s =
     (let (r, w) = drv_call D c (m_dev s)
      in (r, s\<lparr>m_dev := w, events := events s @ [Call c r]\<rparr>))"

text \<open>\<^verbatim>\<open>bmm350_error_codes_print_result(name, rslt)\<close>.\<close>

definition print_result :: "string \<Rightarrow> ('w, 'd) state \<Rightarrow> ('w, 'd) state" where
  "print_result name s = s\<lparr>events := events s @ [Print_result name (m_rslt s)]\<rparr>"

text \<open>The recurring pair \<^verbatim>\<open>rslt = f(...); bmm350_error_codes_print_result(name, rslt);\<close>.\<close>

definition api_rslt ::
  "('w, 'd) driver \<Rightarrow> call \<Rightarrow> string \<Rightarrow> ('w, 'd) state \<Rightarrow> 'd reply \<times> ('w, 'd) state" where
  "api_rslt D c name s =
     (let (r, s) = api D c s
      in (r, print_result name (s\<lparr>m_rslt := reply_rslt r\<rparr>)))"


text \<open>The \<^verbatim>\<open>printf\<close> of one sample with its time stamp.\<close>

definition print_sample ::
  "('w, 'd) driver \<Rightarrow> 32 word \<Rightarrow> 'd bmm350_mag_temp_data \<Rightarrow> ('w, 'd) state \<Rightarrow> ('w, 'd) state" where
  "print_sample D time_ms d s =
     (let (t, s) = api D Coines_get_millis s
      in printf ''%lu, %f, %f, %f, %f\<newline>''
           [Arg_ulong (reply_millis t - time_ms), Arg_double (mtd_x d), Arg_double (mtd_y d),
            Arg_double (mtd_z d), Arg_double (temperature d)] s)"

definition read_sample :: "('w, 'd) driver \<Rightarrow> ('w, 'd) state \<Rightarrow> 'd reply \<times> ('w, 'd) state" where
  "read_sample D s =
     api_rslt D Bmm350_get_compensated_mag_xyz_temp_data ''bmm350_get_compensated_mag_xyz_temp_data'' s"

text \<open>Combination 1: \<^verbatim>\<open>while (loop) { ...; loop--; }\<close> with \<^verbatim>\<open>uint8_t loop\<close>. The body reads
  one sample into \<^verbatim>\<open>mag_temp_data\<close> and prints it.\<close>

definition body_combination_1 :: "('w, 'd) driver \<Rightarrow> 32 word \<Rightarrow> ('w, 'd) state \<Rightarrow> ('w, 'd) state" where
  "body_combination_1 D time_ms s =
     (let (r, s) = read_sample D s;
          s = s\<lparr>m_mag_temp_data := reply_data r\<rparr>
      in print_sample D time_ms (m_mag_temp_data s) s)"

function loop_combination_1 ::
  "('w, 'd) driver \<Rightarrow> 32 word \<Rightarrow> 8 word \<Rightarrow> ('w, 'd) state \<Rightarrow> 8 word \<times> ('w, 'd) state" where
  "loop_combination_1 D time_ms loop s =
     (if loop \<noteq> 0 then loop_combination_1 D time_ms (loop - 1) (body_combination_1 D time_ms s)
      else (loop, s))"
  by pat_completeness auto
termination
  by (relation "measure (\<lambda>(D, t, loop, s). unat loop)") (auto simp: unat_minus_one unat_gt_0)

declare loop_combination_1.simps [simp del]

text \<open>Combinations 2 and 3: \<^verbatim>\<open>while (loop--) { ... }\<close>; they differ in the power mode. The
  body sets the power mode, reads one sample and prints it. The counter is decremented
  also when the test fails, so it leaves the loop as 255.\<close>

definition body_forced ::
  "('w, 'd) driver \<Rightarrow> powermode \<Rightarrow> 32 word \<Rightarrow> ('w, 'd) state \<Rightarrow> ('w, 'd) state" where
  "body_forced D mode time_ms s =
     (let (r, s) = api_rslt D (Bmm350_set_powermode mode) ''bmm350_set_powermode'' s;
          (r, s) = read_sample D s;
          s = s\<lparr>m_mag_temp_data := reply_data r\<rparr>
      in print_sample D time_ms (m_mag_temp_data s) s)"

function loop_forced ::
  "('w, 'd) driver \<Rightarrow> powermode \<Rightarrow> 32 word \<Rightarrow> 8 word \<Rightarrow> ('w, 'd) state \<Rightarrow> 8 word \<times> ('w, 'd) state" where
  "loop_forced D mode time_ms loop s =
     (if loop \<noteq> 0 then loop_forced D mode time_ms (loop - 1) (body_forced D mode time_ms s)
      else (loop - 1, s))"
  by pat_completeness auto
termination
  by (relation "measure (\<lambda>(D, m, t, loop, s). unat loop)") (auto simp: unat_minus_one unat_gt_0)

declare loop_forced.simps [simp del]






text \<open>The part of a combination that all but the first share: its two header lines, the
  call of \<^verbatim>\<open>bmm350_set_odr_performance\<close>, the column header and the start time.\<close>

definition combination_header ::
  "('w, 'd) driver \<Rightarrow> string \<Rightarrow> string \<Rightarrow> averaging \<Rightarrow> ('w, 'd) state \<Rightarrow> 32 word \<times> ('w, 'd) state" where
  "combination_header D title what avg s =
     (let s = printf title [] s;
          s = printf what [] s;
          (r, s) = api_rslt D (Bmm350_set_odr_performance avg) ''bmm350_set_odr_performance'' s;
          s = printf ''Timestamp(ms), Mag_X(uT), Mag_Y(uT), Mag_Z(uT), Temperature(degC)\<newline>'' [] s;
          (t, s) = api D Coines_get_millis s
      in (reply_millis t, s))"


text \<open>The body of \<^verbatim>\<open>if (rslt == BMM350_OK) { ... }\<close> (source lines 174 to 393), in two
  parts: combinations 1 to 3, which only print what they read, and combinations 4 to 6,
  which fill the array and call \<^verbatim>\<open>calculate_noise\<close>.\<close>

definition combinations_1_to_3 :: "('w, 'd) driver \<Rightarrow> ('w, 'd) state \<Rightarrow> ('w, 'd) state" where
  "combinations_1_to_3 D s =
     (let (r, s) = api_rslt D (Bmm350_set_powermode BMM350_FORCED_MODE_FAST) ''bmm350_set_powermode'' s;
          s = printf ''Timestamp(ms), Mag_X(uT), Mag_Y(uT), Mag_Z(uT), Temperature(degC)\<newline>'' [] s;
          (t, s) = api D Coines_get_millis s;
          (loop, s) = loop_combination_1 D (reply_millis t) 10 s;
          (time_ms, s) = combination_header D ''\<newline>COMBINATION 2 :\<newline>''
             ''Set forced mode fast and read data with averaging between 4 samples in a loop\<newline>''
             BMM350_AVERAGING_4 s;
          (loop, s) = loop_forced D BMM350_FORCED_MODE_FAST time_ms 10 s;
          (time_ms, s) = combination_header D ''\<newline>COMBINATION 3 :\<newline>''
             ''Set forced mode and read data with no averaging between samples in a loop\<newline>''
             BMM350_NO_AVERAGING s;
          (loop, s) = loop_forced D BMM350_FORCED_MODE time_ms 10 s
      in s)"




section \<open>The specification's analyzer\<close>

text \<open>
  The specification's contract is \<^verbatim>\<open>computeNoise(batch, mean, scale)\<close> with, per axis,
  \<^verbatim>\<open>variance = (1/N) * sum over i of (batch[i].a - mean.a)^2\<close> and
  \<^verbatim>\<open>result.a = sqrt(variance) * scale\<close>, where \<open>N\<close> is the length of the batch. The
  definitions below follow these words, not the code: the sum runs over the batch from its
  first sample on, the divisor is the length of the batch.
\<close>

definition sum_sq_dev :: "'d arith \<Rightarrow> 'd list \<Rightarrow> 'd \<Rightarrow> 'd" where
  "sum_sq_dev A xs m = foldl (fadd A) (flit A 0) (map (\<lambda>x. fmul A (fsub A x m) (fsub A x m)) xs)"

definition rms_noise :: "'d arith \<Rightarrow> 'd list \<Rightarrow> 'd \<Rightarrow> 'd \<Rightarrow> 'd" where
  "rms_noise A xs m scale =
     fmul A (fsqrt A (fdiv A (sum_sq_dev A xs m) (flit A (int (length xs))))) scale"

definition computeNoise ::
  "'d arith \<Rightarrow> 'd bmm350_mag_temp_data list \<Rightarrow> 'd bmm350_mag_data \<Rightarrow> 'd \<Rightarrow> 'd noise_level" where
  "computeNoise A batch mean scale =
     \<lparr> noise_level_x = rms_noise A (map mtd_x batch) (md_x mean) scale,
       noise_level_y = rms_noise A (map mtd_y batch) (md_y mean) scale,
       noise_level_z = rms_noise A (map mtd_z batch) (md_z mean) scale \<rparr>"

section \<open>Observations on the trace of \<^verbatim>\<open>main\<close>\<close>











text \<open>One summand of the variance loop.\<close>

definition sq_dev :: "'d arith \<Rightarrow> 'd \<Rightarrow> 'd \<Rightarrow> 'd" where
  "sq_dev A m x = fmul A (fsub A x m) (fsub A x m)"

section \<open>Concrete inputs\<close>

text \<open>Samples and mean vectors on which the theorems below are exercised.\<close>

definition zero_sample :: "double bmm350_mag_temp_data" where
  "zero_sample = \<lparr> mtd_x = Fin 0, mtd_y = Fin 0, mtd_z = Fin 0, temperature = Fin 0 \<rparr>"

definition zero_mean :: "double bmm350_mag_data" where
  "zero_mean = \<lparr> md_x = Fin 0, md_y = Fin 0, md_z = Fin 0 \<rparr>"

definition warm_sample :: "double bmm350_mag_temp_data" where
  "warm_sample = \<lparr> mtd_x = Fin 0, mtd_y = Fin 0, mtd_z = Fin 0, temperature = Fin 25 \<rparr>"

definition still_sample :: "double bmm350_mag_temp_data" where
  "still_sample = \<lparr> mtd_x = Fin 3, mtd_y = Fin (- 2), mtd_z = Fin 7, temperature = Fin 25 \<rparr>"

definition still_mean :: "double bmm350_mag_data" where
  "still_mean = \<lparr> md_x = Fin 3, md_y = Fin (- 2), md_z = Fin 7 \<rparr>"

definition inf_sample :: "double bmm350_mag_temp_data" where
  "inf_sample = \<lparr> mtd_x = Inf False, mtd_y = Inf False, mtd_z = Inf False, temperature = Fin 0 \<rparr>"

definition inf_mean :: "double bmm350_mag_data" where
  "inf_mean = \<lparr> md_x = Inf False, md_y = Inf False, md_z = Inf False \<rparr>"

definition nan_sample :: "double bmm350_mag_temp_data" where
  "nan_sample = \<lparr> mtd_x = NaN, mtd_y = Fin 0, mtd_z = Fin 0, temperature = Fin 0 \<rparr>"

definition plus_sample :: "double bmm350_mag_temp_data" where
  "plus_sample = \<lparr> mtd_x = Fin 1, mtd_y = Fin 0, mtd_z = Fin 0, temperature = Fin 0 \<rparr>"

definition minus_sample :: "double bmm350_mag_temp_data" where
  "minus_sample = \<lparr> mtd_x = Fin (- 1), mtd_y = Fin 0, mtd_z = Fin 0, temperature = Fin 0 \<rparr>"

text \<open>A hundred samples whose \<open>x\<close> values alternate between \<open>+1\<close> and \<open>-1\<close>.\<close>

definition alternating_batch :: "double bmm350_mag_temp_data list" where
  "alternating_batch = concat (replicate 50 [plus_sample, minus_sample])"


definition small_sample :: "double bmm350_mag_temp_data" where
  "small_sample = \<lparr> mtd_x = Fin 10, mtd_y = Fin 0, mtd_z = Fin 0, temperature = Fin 0 \<rparr>"




definition small_sample_exact :: "real bmm350_mag_temp_data" where
  "small_sample_exact = \<lparr> mtd_x = 10, mtd_y = 0, mtd_z = 0, temperature = 0 \<rparr>"

definition zero_mean_exact :: "real bmm350_mag_data" where
  "zero_mean_exact = \<lparr> md_x = 0, md_y = 0, md_z = 0 \<rparr>"

text \<open>A state of \<^verbatim>\<open>main\<close> with a hundred samples at rest in its array and their mean.\<close>

definition still_state :: "(unit, double) state" where
  "still_state =
     \<lparr> m_dev = (), events = [Print_result ''bmm350_set_powermode'' 0], m_rslt = 0,
       m_mag_temp_data = zero_sample,
       m_get_mag_temp_data = replicate 100 still_sample,
       m_avg_mag_data = still_mean \<rparr>"


section \<open>Doubles that are not lost to underflow\<close>


section \<open>Deviations and their mean square\<close>

text \<open>The deviations of the values of one axis from the mean of that axis, as the loop
  computes them (\<^verbatim>\<open>mag_temp_data[index].x - avg_mag_data.x\<close>), and the mean of the squares
  of a list of numbers.\<close>

definition deviations :: "'d arith \<Rightarrow> 'd \<Rightarrow> 'd list \<Rightarrow> 'd list" where
  "deviations A m xs = map (\<lambda>x. fsub A x m) xs"

definition mean_square :: "'a::field list \<Rightarrow> 'a" where
  "mean_square ds = sum_list (map (\<lambda>d. d * d) ds) / of_nat (length ds)"

text \<open>A hundred samples of mean 0 whose \<open>x\<close> values are five fractions over \<open>2\<^sup>2\<^sup>4\<close> and 95
  zeros; the squares of the five numerators add up to \<open>100 * 2\<^sup>4\<^sup>8\<close>.\<close>

definition fraction_sample :: "int \<Rightarrow> double bmm350_mag_temp_data" where
  "fraction_sample k =
     \<lparr> mtd_x = Fin (of_int k / 16777216), mtd_y = Fin 0, mtd_z = Fin 0, temperature = Fin 0 \<rparr>"

definition fraction_batch :: "double bmm350_mag_temp_data list" where
  "fraction_batch =
     map fraction_sample [105984625, 130056745, 3831, 58, 5] @ replicate 95 zero_sample"

definition fraction_deviations :: "rat list" where
  "fraction_deviations =
     [105984625 / 16777216, 130056745 / 16777216, 3831 / 16777216, 58 / 16777216, 5 / 16777216]
       @ replicate 95 0"

text \<open>A hundred samples of mean 0 with one \<open>x\<close> value of 10 and 99 of zero, in binary64 and
  with real components.\<close>

definition far_batch :: "double bmm350_mag_temp_data list" where
  "far_batch = small_sample # replicate 99 zero_sample"

definition zero_sample_exact :: "real bmm350_mag_temp_data" where
  "zero_sample_exact = \<lparr> mtd_x = 0, mtd_y = 0, mtd_z = 0, temperature = 0 \<rparr>"

definition far_batch_exact :: "real bmm350_mag_temp_data list" where
  "far_batch_exact = small_sample_exact # replicate 99 zero_sample_exact"

section \<open>Properties of the binary64 arithmetic\<close>

lemma ilog2_nat_bounds: "0 < n \<Longrightarrow> 2 ^ ilog2_nat n \<le> n \<and> n < 2 ^ Suc (ilog2_nat n)"
proof (induction n rule: ilog2_nat.induct)
  case (1 n)
  show ?case
  proof (cases "n < 2")
    case True
    with "1.prems" have "n = 1" by simp
    then show ?thesis by (simp add: ilog2_nat.simps)
  next
    case False
    then have pos: "0 < n div 2" by simp
    from "1.IH" [OF False pos]
    have lo: "2 ^ ilog2_nat (n div 2) \<le> n div 2" and hi: "n div 2 < 2 ^ Suc (ilog2_nat (n div 2))"
      by simp_all
    have eq: "ilog2_nat n = Suc (ilog2_nat (n div 2))"
      using False by (subst ilog2_nat.simps) simp
    from lo have "2 * 2 ^ ilog2_nat (n div 2) \<le> n" by linarith
    moreover from hi have "n < 2 * 2 ^ Suc (ilog2_nat (n div 2))" by linarith
    ultimately show ?thesis by (simp add: eq)
  qed
qed

lemma ilog2_bounds:
  assumes "0 < q"
  shows "2 powi ilog2 q \<le> q" and "q < 2 powi (ilog2 q + 1)"
proof -
  obtain n d where nd: "quotient_of q = (n, d)" by (cases "quotient_of q")
  have d: "0 < d" using nd by (rule quotient_of_denom_pos)
  have q: "q = of_int n / of_int d" using nd by (rule quotient_of_div)
  have n: "0 < n" using assms d by (simp add: q zero_less_divide_iff)
  define a where "a = ilog2_nat (nat n)"
  define b where "b = ilog2_nat (nat d)"
  define g where "g = int a - int b"
  from ilog2_nat_bounds [of "nat n"] n
  have na: "2 ^ a \<le> nat n" "nat n < 2 ^ Suc a" by (simp_all add: a_def)
  from ilog2_nat_bounds [of "nat d"] d
  have db: "2 ^ b \<le> nat d" "nat d < 2 ^ Suc b" by (simp_all add: b_def)
  have na': "(2::rat) ^ a \<le> of_int n" "(of_int n :: rat) < 2 ^ Suc a"
  proof -
    have "of_nat (2 ^ a) \<le> (of_nat (nat n) :: rat)" using na(1) by (simp only: of_nat_le_iff)
    then show "(2::rat) ^ a \<le> of_int n" using n by simp
    have "(of_nat (nat n) :: rat) < of_nat (2 ^ Suc a)" using na(2) by (simp only: of_nat_less_iff)
    then show "(of_int n :: rat) < 2 ^ Suc a" using n by simp
  qed
  have db': "(2::rat) ^ b \<le> of_int d" "(of_int d :: rat) < 2 ^ Suc b"
  proof -
    have "of_nat (2 ^ b) \<le> (of_nat (nat d) :: rat)" using db(1) by (simp only: of_nat_le_iff)
    then show "(2::rat) ^ b \<le> of_int d" using d by simp
    have "(of_nat (nat d) :: rat) < of_nat (2 ^ Suc b)" using db(2) by (simp only: of_nat_less_iff)
    then show "(of_int d :: rat) < 2 ^ Suc b" using d by simp
  qed
  have lo: "2 powi (g - 1) \<le> q"
  proof -
    have "(2::rat) powi (g - 1) = 2 ^ a / 2 ^ Suc b"
      unfolding g_def by (simp add: power_int_diff)
    also have "\<dots> \<le> of_int n / of_int d"
      using na'(1) db'(2) d n by (intro frac_le) simp_all
    finally show ?thesis by (simp add: q)
  qed
  have hi: "q < 2 powi (g + 1)"
  proof -
    have "of_int n / of_int d < (2::rat) ^ Suc a / 2 ^ b"
      using na'(2) db'(1) d n by (intro frac_less) simp_all
    also have "\<dots> = 2 powi (g + 1)"
      unfolding g_def by (simp add: power_int_diff power_int_add)
    finally show ?thesis by (simp add: q)
  qed
  have il: "ilog2 q = (if 2 powi g \<le> q then g else g - 1)"
    by (simp add: ilog2_def nd a_def b_def g_def Let_def)
  show "2 powi ilog2 q \<le> q" using lo by (simp add: il)
  show "q < 2 powi (ilog2 q + 1)" using hi by (simp add: il not_le)
qed

lemma pow2_binade_unique:
  fixes q :: rat
  assumes "2 powi k \<le> q" "q < 2 powi (k + 1)" "2 powi j \<le> q" "q < 2 powi (j + 1)"
  shows "j = k"
proof (rule ccontr)
  assume "j \<noteq> k"
  then consider "j + 1 \<le> k" | "k + 1 \<le> j" by linarith
  then show False
  proof cases
    case 1
    then have "(2::rat) powi (j + 1) \<le> 2 powi k" by (intro power_int_increasing) simp_all
    with assms show False by linarith
  next
    case 2
    then have "(2::rat) powi (k + 1) \<le> 2 powi j" by (intro power_int_increasing) simp_all
    with assms show False by linarith
  qed
qed

lemma ilog2_eqI: "2 powi k \<le> q \<Longrightarrow> q < 2 powi (k + 1) \<Longrightarrow> ilog2 q = k"
proof -
  assume a: "2 powi k \<le> q" "q < 2 powi (k + 1)"
  have "0 < (2::rat) powi k" by simp
  with a have "0 < q" by linarith
  from pow2_binade_unique [OF a ilog2_bounds [OF this]] show ?thesis .
qed

lemma round_half_even_cases:
  fixes q :: rat
  defines "f \<equiv> \<lfloor>q\<rfloor>"
  obtains (down) "q - of_int f < 1 / 2" "round_half_even q = f"
    | (up) "1 / 2 < q - of_int f" "round_half_even q = f + 1"
    | (tie_even) "q - of_int f = 1 / 2" "even f" "round_half_even q = f"
    | (tie_odd) "q - of_int f = 1 / 2" "odd f" "round_half_even q = f + 1"
proof -
  consider "q - of_int f < 1 / 2" | "1 / 2 < q - of_int f" | "q - of_int f = 1 / 2"
    by linarith
  then show thesis
  proof cases
    case 1
    then show ?thesis by (intro down) (simp_all add: round_half_even_def f_def)
  next
    case 2
    then show ?thesis by (intro up) (simp_all add: round_half_even_def f_def)
  next
    case 3
    show ?thesis
    proof (cases "even f")
      case True
      with 3 show ?thesis by (intro tie_even) (simp_all add: round_half_even_def f_def)
    next
      case False
      with 3 show ?thesis by (intro tie_odd) (simp_all add: round_half_even_def f_def)
    qed
  qed
qed

lemma floor_rat_bounds:
  fixes q :: rat
  shows "of_int \<lfloor>q\<rfloor> \<le> q" "q < of_int \<lfloor>q\<rfloor> + 1"
  by linarith+

lemma round_half_even_bounds:
  "of_int (round_half_even q) \<le> q + 1 / 2" "q - 1 / 2 \<le> of_int (round_half_even q)"
proof -
  note fl = floor_rat_bounds [of q]
  show "of_int (round_half_even q) \<le> q + 1 / 2"
  proof (cases q rule: round_half_even_cases)
    case down then show ?thesis using fl by (simp; linarith)
  next
    case up then show ?thesis using fl by simp
  next
    case tie_even then show ?thesis using fl by (simp; linarith)
  next
    case tie_odd then show ?thesis using fl by simp
  qed
  show "q - 1 / 2 \<le> of_int (round_half_even q)"
  proof (cases q rule: round_half_even_cases)
    case down then show ?thesis using fl by simp
  next
    case up then show ?thesis using fl by (simp; linarith)
  next
    case tie_even then show ?thesis using fl by simp
  next
    case tie_odd then show ?thesis using fl by (simp; linarith)
  qed
qed

lemma round_half_even_eqI: "\<bar>q - of_int m\<bar> < 1 / 2 \<Longrightarrow> round_half_even q = m"
proof -
  assume a: "\<bar>q - of_int m\<bar> < 1 / 2"
  from round_half_even_bounds [of q] a
  have "(of_int (round_half_even q) :: rat) < of_int m + 1" "(of_int m :: rat) - 1 < of_int (round_half_even q)"
    by linarith+
  then have "(of_int (round_half_even q) :: rat) < of_int (m + 1)" "(of_int (m - 1) :: rat) < of_int (round_half_even q)"
    by simp_all
  then have "round_half_even q < m + 1" "m - 1 < round_half_even q"
    by (simp_all only: of_int_less_iff)
  then show ?thesis by simp
qed

lemma round_half_even_of_int [simp]: "round_half_even (of_int m) = m"
  by (rule round_half_even_eqI) simp

lemma round_half_even_tie: "even m \<Longrightarrow> \<bar>q - of_int m\<bar> = 1 / 2 \<Longrightarrow> round_half_even q = m"
proof -
  assume e: "even m" and a: "\<bar>q - of_int m\<bar> = 1 / 2"
  show ?thesis
  proof (cases "of_int m \<le> q")
    case True
    with a have qm: "q - of_int m = 1 / 2" by simp
    then have "of_int m \<le> q" "q < of_int m + 1" by linarith+
    then have f: "\<lfloor>q\<rfloor> = m" by (rule floor_unique)
    show ?thesis using e qm by (simp add: round_half_even_def f)
  next
    case False
    with a have qm: "of_int m - q = 1 / 2" by simp
    then have "of_int (m - 1) \<le> q" "q < of_int (m - 1) + 1" by simp_all
    then have f: "\<lfloor>q\<rfloor> = m - 1" by (rule floor_unique)
    have "q - of_int (m - 1) = 1 / 2" using qm by simp
    then show ?thesis using e by (simp add: round_half_even_def f)
  qed
qed

lemma round_half_even_mono_int_le: "q \<le> of_int n \<Longrightarrow> round_half_even q \<le> n"
proof -
  assume "q \<le> of_int n"
  with round_half_even_bounds(1) [of q] have "(of_int (round_half_even q) :: rat) < of_int n + 1" by linarith
  then have "(of_int (round_half_even q) :: rat) < of_int (n + 1)" by simp
  then have "round_half_even q < n + 1" by (simp only: of_int_less_iff)
  then show ?thesis by simp
qed

lemma round_half_even_mono_int_ge: "of_int n \<le> q \<Longrightarrow> n \<le> round_half_even q"
proof -
  assume "of_int n \<le> q"
  with round_half_even_bounds(2) [of q] have "(of_int (n - 1) :: rat) < of_int (round_half_even q)" by simp
  then have "n - 1 < round_half_even q" by (simp only: of_int_less_iff)
  then show ?thesis by simp
qed

lemma pow2_lt_exp:
  fixes q :: rat
  assumes "2 powi a \<le> q" "q < 2 powi b"
  shows "a < b"
proof (rule ccontr)
  assume "\<not> a < b"
  then have "(2::rat) powi b \<le> 2 powi a" by (intro power_int_increasing) simp_all
  with assms show False by linarith
qed

lemma ulp_exp_le: "- 1074 \<le> k \<Longrightarrow> ulp_exp k \<le> k"
  by (simp add: ulp_exp_def)

lemma ulp_exp_ge [simp]: "- 1074 \<le> ulp_exp k"
  by (simp add: ulp_exp_def)

lemma ulp_exp_mono: "j \<le> k \<Longrightarrow> ulp_exp j \<le> ulp_exp k"
  by (simp add: ulp_exp_def)

lemma pow2_split:
  "(2::rat) powi a = 2 powi (a - b) * 2 powi b"
  by (simp flip: power_int_add)

lemma pow2_as_int: "0 \<le> n \<Longrightarrow> (2::rat) powi n = of_int (2 ^ nat n)"
  by (simp add: power_int_def)

lemma round_core_le:
  assumes q: "0 < q" "q \<le> 2 powi K" and K: "- 1074 \<le> K"
  shows "of_int (round_half_even (q / 2 powi ulp_exp (ilog2 q))) * 2 powi ulp_exp (ilog2 q) \<le> (2::rat) powi K"
proof -
  define e where "e = ulp_exp (ilog2 q)"
  have "ilog2 q < K + 1"
    using ilog2_bounds(1) [OF q(1)] q(2) power_int_strict_increasing [of K "K + 1" "2::rat"]
    by (intro pow2_lt_exp [of _ q]) auto
  then have "ilog2 q \<le> K" by simp
  then have "ulp_exp (ilog2 q) \<le> ulp_exp K" by (rule ulp_exp_mono)
  also have "\<dots> \<le> K" using K by (rule ulp_exp_le)
  finally have eK: "e \<le> K" by (simp add: e_def)
  have "q / 2 powi e \<le> 2 powi K / 2 powi e"
    using q(2) by (simp add: divide_right_mono)
  also have "\<dots> = 2 powi (K - e)" by (simp add: power_int_diff)
  also have "\<dots> = of_int (2 ^ nat (K - e))" using eK by (intro pow2_as_int) simp
  finally have "round_half_even (q / 2 powi e) \<le> 2 ^ nat (K - e)"
    by (rule round_half_even_mono_int_le)
  then have "(of_int (round_half_even (q / 2 powi e)) :: rat) \<le> of_int (2 ^ nat (K - e))"
    by (simp only: of_int_le_iff)
  also have "\<dots> = 2 powi (K - e)" using eK by (intro pow2_as_int [symmetric]) simp
  finally have "of_int (round_half_even (q / 2 powi e)) * 2 powi e \<le> (2::rat) powi (K - e) * 2 powi e"
    by (intro mult_right_mono) simp_all
  also have "\<dots> = 2 powi K" by (rule pow2_split [symmetric])
  finally show ?thesis by (simp add: e_def)
qed


lemma round_pos_eqI:
  assumes "2 powi k \<le> q" "q < 2 powi (k + 1)"
    and "\<bar>q / 2 powi ulp_exp k - of_int m\<bar> < 1 / 2"
    and "of_int m * 2 powi ulp_exp k < overflow_threshold"
  shows "round_pos q = Fin (of_int m * 2 powi ulp_exp k)"
proof -
  have k: "ilog2 q = k" using assms(1,2) by (rule ilog2_eqI)
  have m: "round_half_even (q / 2 powi ulp_exp k) = m" using assms(3) by (rule round_half_even_eqI)
  show ?thesis using assms(4) by (simp add: round_pos_def k m Let_def)
qed

lemma round_pos_tieI:
  assumes "2 powi k \<le> q" "q < 2 powi (k + 1)"
    and "even m" "\<bar>q / 2 powi ulp_exp k - of_int m\<bar> = 1 / 2"
    and "of_int m * 2 powi ulp_exp k < overflow_threshold"
  shows "round_pos q = Fin (of_int m * 2 powi ulp_exp k)"
proof -
  have k: "ilog2 q = k" using assms(1,2) by (rule ilog2_eqI)
  have m: "round_half_even (q / 2 powi ulp_exp k) = m" using assms(3,4) by (rule round_half_even_tie)
  show ?thesis using assms(5) by (simp add: round_pos_def k m Let_def)
qed

lemma on_grid_minus [simp]: "on_grid (- q) = on_grid q"
  by (simp add: on_grid_def)

lemma representable_minus [simp]: "representable (- q) = representable q"
  by (simp add: representable_def)

lemma round_pos_on_grid:
  assumes "0 < q" "on_grid q"
  shows "round_pos q = (if overflow_threshold \<le> q then Inf False else Fin q)"
proof -
  define e where "e = ulp_exp (ilog2 q)"
  from assms have t: "of_int \<lfloor>q / 2 powi e\<rfloor> = q / 2 powi e"
    by (simp add: on_grid_def e_def Let_def)
  have "round_half_even (q / 2 powi e) = \<lfloor>q / 2 powi e\<rfloor>"
    by (subst t [symmetric]) (rule round_half_even_of_int)
  then have "of_int (round_half_even (q / 2 powi e)) * 2 powi e = q"
    by (simp add: t)
  then show ?thesis by (simp add: round_pos_def Let_def flip: e_def)
qed

lemma round_double_representable: "representable q \<Longrightarrow> round_double q = Fin q"
proof -
  assume r: "representable q"
  consider "q = 0" | "0 < q" | "q < 0" by linarith
  then show ?thesis
  proof cases
    case 1 then show ?thesis by (simp add: round_double_def)
  next
    case 2
    with r have "on_grid q" "\<not> overflow_threshold \<le> q" by (simp_all add: representable_def)
    with 2 show ?thesis by (simp add: round_double_def round_pos_on_grid)
  next
    case 3
    with r have "on_grid (- q)" "\<not> overflow_threshold \<le> - q" "0 < - q"
      by (simp_all add: representable_def)
    with 3 show ?thesis by (simp add: round_double_def round_pos_on_grid)
  qed
qed

lemma grid_shift_int:
  assumes "ue \<le> e"
  shows "of_int \<lfloor>(of_int m * 2 powi e :: rat) / 2 powi ue\<rfloor> = ((of_int m * 2 powi e) / 2 powi ue :: rat)"
proof -
  have "(of_int m * 2 powi e) / 2 powi ue = (of_int m * 2 powi (e - ue) :: rat)"
    by (simp add: power_int_diff)
  also have "\<dots> = of_int (m * 2 ^ nat (e - ue))"
    using assms by (simp add: pow2_as_int)
  finally have eq: "(of_int m * 2 powi e) / 2 powi ue = (of_int (m * 2 ^ nat (e - ue)) :: rat)" .
  show ?thesis unfolding eq by simp
qed

lemma on_grid_int_pow:
  assumes m: "0 < m" "m \<le> 2 ^ 53" and e: "- 1074 \<le> e"
  shows "on_grid (of_int m * 2 powi e)"
proof -
  define q :: rat where "q = of_int m * 2 powi e"
  have q0: "0 < q" using m(1) by (simp add: q_def)
  have ab: "\<bar>q\<bar> = q" using q0 by simp
  have "ulp_exp (ilog2 q) \<le> e \<or> (q = 2 powi (e + 53) \<and> ulp_exp (ilog2 q) = e + 1)"
  proof (cases "m = 2 ^ 53")
    case True
    then have qe: "q = 2 powi (e + 53)"
      by (simp add: q_def power_int_add)
    then have "ilog2 q = e + 53"
      by (intro ilog2_eqI) (simp_all add: power_int_strict_increasing)
    then have "ulp_exp (ilog2 q) = e + 1" using e by (simp add: ulp_exp_def)
    with qe show ?thesis by simp
  next
    case False
    with m(2) have "m < 2 ^ 53" by simp
    then have "(of_int m :: rat) < of_int (2 ^ 53)" by (simp only: of_int_less_iff)
    then have "(of_int m :: rat) < 2 powi 53" by simp
    then have "q < 2 powi 53 * 2 powi e" unfolding q_def by (intro mult_strict_right_mono) simp_all
    then have "q < 2 powi (53 + e)" by (simp add: power_int_add)
    with ilog2_bounds(1) [OF q0] have "ilog2 q < 53 + e" by (rule pow2_lt_exp)
    then show ?thesis using e by (simp add: ulp_exp_def)
  qed
  then show ?thesis
  proof
    assume "ulp_exp (ilog2 q) \<le> e"
    then show ?thesis
      unfolding on_grid_def Let_def q_def [symmetric] ab
      unfolding q_def by (rule grid_shift_int)
  next
    assume a: "q = 2 powi (e + 53) \<and> ulp_exp (ilog2 q) = e + 1"
    then have qe: "q = 2 powi (e + 53)" and ue: "ulp_exp (ilog2 q) = e + 1" by blast+
    have "of_int \<lfloor>q / 2 powi (e + 1)\<rfloor> = q / 2 powi (e + 1)"
      unfolding qe using grid_shift_int [of "e + 1" "e + 53" 1] by simp
    then show ?thesis
      unfolding on_grid_def Let_def q_def [symmetric] ab ue .
  qed
qed

lemma overflow_threshold_gt: "k \<le> 1023 \<Longrightarrow> (2::rat) ^ k < overflow_threshold"
  unfolding overflow_threshold_def by (rule power_strict_increasing) simp_all

lemma round_double_of_int:
  assumes "\<bar>k\<bar> \<le> 2 ^ 53"
  shows "round_double (of_int k) = Fin (of_int k)"
proof (rule round_double_representable)
  show "representable (of_int k)"
  proof (cases "k = 0")
    case True then show ?thesis by (simp add: representable_def)
  next
    case False
    then have "0 < \<bar>k\<bar>" by simp
    from on_grid_int_pow [OF this assms, of 0]
    have g: "on_grid (of_int \<bar>k\<bar>)" by simp
    have "on_grid (of_int k)"
    proof (cases "0 \<le> k")
      case True with g show ?thesis by simp
    next
      case False
      then have "of_int \<bar>k\<bar> = - (of_int k :: rat)" by simp
      with g show ?thesis by (simp only: on_grid_minus)
    qed
    moreover have "(of_int \<bar>k\<bar> :: rat) \<le> of_int (2 ^ 53)" using assms by (simp only: of_int_le_iff)
    then have "\<bar>of_int k :: rat\<bar> \<le> 2 ^ 53" by simp
    then have "\<bar>of_int k :: rat\<bar> < overflow_threshold"
      using overflow_threshold_gt [of 53] by simp
    ultimately show ?thesis by (simp add: representable_def)
  qed
qed

lemma isqrt_bits_inv:
  "r\<^sup>2 \<le> n \<Longrightarrow> n < (r + 2 ^ i)\<^sup>2 \<Longrightarrow>
     (isqrt_bits n r i)\<^sup>2 \<le> n \<and> n < (isqrt_bits n r i + 1)\<^sup>2"
proof (induction i arbitrary: r)
  case 0
  then show ?case by simp
next
  case (Suc i)
  show ?case
  proof (cases "(r + 2 ^ i)\<^sup>2 \<le> n")
    case True
    have eq: "r + 2 ^ i + 2 ^ i = r + 2 ^ Suc i" by simp
    from Suc.prems(2) have "n < (r + 2 ^ i + 2 ^ i)\<^sup>2" unfolding eq .
    from Suc.IH [OF True this] True show ?thesis by simp
  next
    case False
    then have "n < (r + 2 ^ i)\<^sup>2" by simp
    from Suc.IH [OF Suc.prems(1) this] False show ?thesis by simp
  qed
qed

lemma isqrt_correct: "(isqrt n)\<^sup>2 \<le> n" "n < (isqrt n + 1)\<^sup>2"
proof -
  have "n < (0 + 2 ^ Suc (ilog2_nat n))\<^sup>2"
  proof (cases "n = 0")
    case True then show ?thesis by simp
  next
    case False
    then have "n < 2 ^ Suc (ilog2_nat n)" using ilog2_nat_bounds [of n] by simp
    also have "\<dots> \<le> (2 ^ Suc (ilog2_nat n))\<^sup>2" by (rule power2_nat_le_imp_le) simp
    finally show ?thesis by simp
  qed
  with isqrt_bits_inv [of 0 n "Suc (ilog2_nat n)"]
  show "(isqrt n)\<^sup>2 \<le> n" "n < (isqrt n + 1)\<^sup>2"
    by (simp_all add: isqrt_def)
qed

lemma isqrt_rat_bounds:
  fixes t :: rat
  assumes "0 \<le> t"
  defines "n \<equiv> int (isqrt (nat \<lfloor>t\<rfloor>))"
  shows "(of_int n)\<^sup>2 \<le> t" "t < (of_int n + 1)\<^sup>2"
proof -
  define N where "N = nat \<lfloor>t\<rfloor>"
  have fl: "0 \<le> \<lfloor>t\<rfloor>" using assms(1) by simp
  have N1: "(of_nat N :: rat) \<le> t" using fl floor_rat_bounds(1) [of t] by (simp add: N_def)
  have N2: "t < of_nat N + 1" using fl floor_rat_bounds(2) [of t] by (simp add: N_def)
  from isqrt_correct [of N]
  have a: "(isqrt N)\<^sup>2 \<le> N" and b: "N + 1 \<le> (isqrt N + 1)\<^sup>2" by simp_all
  have "(of_nat ((isqrt N)\<^sup>2) :: rat) \<le> of_nat N" using a by (simp only: of_nat_le_iff)
  then have "(of_nat (isqrt N) :: rat)\<^sup>2 \<le> of_nat N" by simp
  with N1 show "(of_int n)\<^sup>2 \<le> t" by (simp add: n_def N_def)
  have "(of_nat (N + 1) :: rat) \<le> of_nat ((isqrt N + 1)\<^sup>2)" using b by (simp only: of_nat_le_iff)
  then have "(of_nat N :: rat) + 1 \<le> (of_nat (isqrt N) + 1)\<^sup>2" by (simp add: ac_simps)
  with N2 show "t < (of_int n + 1)\<^sup>2" by (simp add: n_def N_def)
qed

lemma ilog2_div2:
  assumes "2 powi (2 * h) \<le> a" "a < 2 powi (2 * h + 2)"
  shows "ilog2 a div 2 = h"
proof -
  have "0 < (2::rat) powi (2 * h)" by simp
  with assms(1) have a0: "0 < a" by linarith
  have "2 * h < ilog2 a + 1" using assms(1) ilog2_bounds(2) [OF a0] by (rule pow2_lt_exp)
  moreover have "ilog2 a < 2 * h + 2" using ilog2_bounds(1) [OF a0] assms(2) by (rule pow2_lt_exp)
  ultimately show ?thesis by linarith
qed

lemma sq_less_int_rat:
  fixes x y :: rat
  shows "x\<^sup>2 < y\<^sup>2 \<Longrightarrow> 0 \<le> y \<Longrightarrow> x < y"
  by (rule power2_less_imp_less)

lemma sqrt_pos_eqI:
  assumes a: "2 powi (2 * h) \<le> a" "a < 2 powi (2 * h + 2)"
    and m: "1 \<le> m"
    and lo: "(of_int m - 1 / 2)\<^sup>2 < a / 2 powi (2 * ulp_exp h)"
    and hi: "a / 2 powi (2 * ulp_exp h) < (of_int m + 1 / 2)\<^sup>2"
    and fin: "of_int m * 2 powi ulp_exp h < overflow_threshold"
  shows "sqrt_pos a = Fin (of_int m * 2 powi ulp_exp h)"
proof -
  define e where "e = ulp_exp h"
  define t where "t = a / 2 powi (2 * e)"
  define n where "n = int (isqrt (nat \<lfloor>t\<rfloor>))"
  define c :: rat where "c = (of_int n + 1 / 2)\<^sup>2"
  have h: "ilog2 a div 2 = h" using a by (rule ilog2_div2)
  have "0 < (2::rat) powi (2 * h)" by simp
  with a(1) have a0: "0 < a" by linarith
  then have t0: "0 \<le> t" by (simp add: t_def)
  note nb = isqrt_rat_bounds [OF t0, folded n_def]
  have n0: "(0::rat) \<le> of_int n" by (simp add: n_def)
  have m0: "(1::rat) \<le> of_int m" using m by simp
  have lo': "(of_int m - 1 / 2)\<^sup>2 < t" and hi': "t < (of_int m + 1 / 2)\<^sup>2"
    using lo hi by (simp_all only: t_def e_def)
  have 1: "(of_int n :: rat)\<^sup>2 < (of_int m + 1 / 2)\<^sup>2" using nb(1) hi' by (rule le_less_trans)
  have 2: "(0::rat) \<le> of_int m + 1 / 2" using m0 by linarith
  have "(of_int n :: rat) < of_int m + 1 / 2" using 1 2 by (rule power2_less_imp_less)
  then have "(of_int n :: rat) < of_int m + 1" by linarith
  then have "(of_int n :: rat) < of_int (m + 1)" by (simp only: of_int_add of_int_1)
  then have "n < m + 1" by (simp only: of_int_less_iff)
  then have nm: "n \<le> m" by linarith
  have 3: "(of_int m - 1 / 2 :: rat)\<^sup>2 < (of_int n + 1)\<^sup>2" using lo' nb(2) by (rule less_trans)
  have 4: "(0::rat) \<le> of_int n + 1" using n0 by linarith
  have "(of_int m - 1 / 2 :: rat) < of_int n + 1" using 3 4 by (rule power2_less_imp_less)
  then have "(of_int m :: rat) < of_int n + 2" by linarith
  then have "(of_int m :: rat) < of_int (n + 2)" by (simp only: of_int_add of_int_numeral)
  then have "m < n + 2" by (simp only: of_int_less_iff)
  then have mn: "m \<le> n + 1" by linarith
  have sel: "(if t < c then n else if c < t then n + 1 else if even n then n else n + 1) = m"
  proof (cases "m = n")
    case True
    with hi' have "t < c" by (simp only: c_def)
    with True show ?thesis by (simp only: if_True)
  next
    case False
    with nm mn have mn1: "m = n + 1" by linarith
    have "(of_int m - 1 / 2 :: rat) = of_int n + 1 / 2" unfolding mn1 by simp
    with lo' have ct: "c < t" by (simp only: c_def)
    then have "\<not> t < c" by linarith
    with ct mn1 show ?thesis by (simp only: if_True if_False)
  qed
  have "sqrt_pos a =
      (if overflow_threshold \<le> of_int (if t < c then n else if c < t then n + 1 else if even n then n else n + 1) * 2 powi e
       then Inf False
       else Fin (of_int (if t < c then n else if c < t then n + 1 else if even n then n else n + 1) * 2 powi e))"
    by (simp only: sqrt_pos_def Let_def h e_def t_def n_def c_def)
  also have "\<dots> = (if overflow_threshold \<le> of_int m * 2 powi e then Inf False else Fin (of_int m * 2 powi e))"
    by (simp only: sel)
  also have "\<dots> = Fin (of_int m * 2 powi e)"
    using fin by (simp only: e_def) simp
  finally show ?thesis by (simp only: e_def)
qed

lemma round_pos_nonneg: "0 < q \<Longrightarrow> double_nonneg (round_pos q)"
proof -
  assume q: "0 < q"
  define e where "e = ulp_exp (ilog2 q)"
  have "(of_int 0 :: rat) \<le> q / 2 powi e" using q by simp
  then have "0 \<le> round_half_even (q / 2 powi e)" by (rule round_half_even_mono_int_ge)
  then have "(0::rat) \<le> of_int (round_half_even (q / 2 powi e)) * 2 powi e" by simp
  then show ?thesis by (simp add: round_pos_def Let_def flip: e_def)
qed

lemma round_double_nonneg: "0 \<le> q \<Longrightarrow> double_nonneg (round_double q)"
  using round_pos_nonneg [of q] by (cases "q = 0") (simp_all add: round_double_def)

lemma sqrt_pos_nonneg: "double_nonneg (sqrt_pos a)"
proof -
  define e where "e = ulp_exp (ilog2 a div 2)"
  define t where "t = a / 2 powi (2 * e)"
  define n where "n = int (isqrt (nat \<lfloor>t\<rfloor>))"
  define m where "m = (if t < (of_int n + 1 / 2)\<^sup>2 then n
     else if (of_int n + 1 / 2)\<^sup>2 < t then n + 1 else if even n then n else n + 1)"
  have "0 \<le> n" by (simp add: n_def)
  then have "0 \<le> m" by (simp add: m_def)
  then have "(0::rat) \<le> of_int m * 2 powi e" by simp
  moreover have "sqrt_pos a = (if overflow_threshold \<le> of_int m * 2 powi e then Inf False else Fin (of_int m * 2 powi e))"
    unfolding sqrt_pos_def Let_def e_def [symmetric] t_def [symmetric] n_def [symmetric] m_def [symmetric] ..
  ultimately show ?thesis by simp
qed

lemma round_double_0 [simp]: "round_double 0 = Fin 0"
  by (simp add: round_double_def)

lemma double_of_int_small: "\<bar>k\<bar> \<le> 2 ^ 53 \<Longrightarrow> double_of_int k = Fin (of_int k)"
  unfolding double_of_int_def by (rule round_double_of_int)

section \<open>The loop of \<^verbatim>\<open>calculate_noise\<close> as a sum\<close>

lemma noise_loop_from:
  assumes len: "100 \<le> length b"
  shows "i \<le> 100 \<Longrightarrow>
    noise_loop A b m (of_nat i) (vx, vy, vz) =
      Inr (foldl (fadd A) vx (map (sq_dev A (md_x m)) (map mtd_x (drop i (take 100 b)))),
           foldl (fadd A) vy (map (sq_dev A (md_y m)) (map mtd_y (drop i (take 100 b)))),
           foldl (fadd A) vz (map (sq_dev A (md_z m)) (map mtd_z (drop i (take 100 b)))))"
proof (induction "100 - i" arbitrary: i vx vy vz)
  case 0
  then have i: "i = 100" by simp
  show ?case
    unfolding i by (subst noise_loop.simps) (simp add: MAG_SAMPLE_COUNT_def)
next
  case (Suc k)
  then have i: "i < 100" by simp
  then have u: "unat (of_nat i :: 8 word) = i"
    by (simp add: unat_of_nat)
  have lt: "(of_nat i :: 8 word) < MAG_SAMPLE_COUNT"
    using i u by (simp add: MAG_SAMPLE_COUNT_def word_less_nat_alt)
  have inb: "i < length b"
    using i len by simp
  have nxt: "(of_nat i :: 8 word) + 1 = of_nat (Suc i)" by simp
  have k: "k = 100 - Suc i" using Suc.hyps(2) by simp
  have d: "drop i (take 100 b) = b ! i # drop (Suc i) (take 100 b)"
    using i len by (simp add: Cons_nth_drop_Suc [symmetric])
  have si: "Suc i \<le> 100" using i by simp
  show ?case
    apply (subst noise_loop.simps)
    apply (simp only: lt inb if_True nxt u)
    apply (subst Suc.hyps(1) [OF k si])
    apply (simp only: d list.map foldl_Cons sq_dev_def)
    done
qed

lemma noise_loop_short:
  assumes len: "length b < 100"
  shows "i \<le> length b \<Longrightarrow> noise_loop A b m (of_nat i) (vx, vy, vz) = Inl Out_Of_Bounds"
proof (induction "length b - i" arbitrary: i vx vy vz)
  case 0
  then have i: "i = length b" by simp
  have u: "unat (of_nat i :: 8 word) = i"
    using len i by (simp add: unat_of_nat)
  have lt: "(of_nat i :: 8 word) < MAG_SAMPLE_COUNT"
    using len i u by (simp add: MAG_SAMPLE_COUNT_def word_less_nat_alt)
  show ?case
    apply (subst noise_loop.simps)
    apply (simp only: lt u if_True)
    apply (simp add: i)
    done
next
  case (Suc k)
  then have i: "i < length b" by simp
  with len have i100: "i < 100" by simp
  then have u: "unat (of_nat i :: 8 word) = i"
    by (simp add: unat_of_nat)
  have lt: "(of_nat i :: 8 word) < MAG_SAMPLE_COUNT"
    using i100 u by (simp add: MAG_SAMPLE_COUNT_def word_less_nat_alt)
  have nxt: "(of_nat i :: 8 word) + 1 = of_nat (Suc i)" by simp
  have k: "k = length b - Suc i" using Suc.hyps(2) by simp
  have si: "Suc i \<le> length b" using i by simp
  show ?case
    apply (subst noise_loop.simps)
    apply (simp only: lt i if_True nxt u)
    apply (rule Suc.hyps(1) [OF k si])
    done
qed

lemma sum_sq_dev_alt: "sum_sq_dev A xs m = foldl (fadd A) (flit A 0) (map (sq_dev A m) xs)"
  by (simp add: sum_sq_dev_def sq_dev_def [abs_def])

text \<open>What the code computes, in terms of the specification's analyzer: a fault on fewer
  than 100 samples, the analyzer on the first 100 samples otherwise.\<close>

lemma noise_levels_eq:
  "noise_levels A b m =
     (if length b < 100 then Inl Out_Of_Bounds
      else Inr (computeNoise A (take 100 b) m (flit A 1000)))"
proof (cases "length b < 100")
  case True
  from noise_loop_short [OF True, of 0 A m "flit A 0" "flit A 0" "flit A 0"] True
  show ?thesis by (simp add: noise_levels_def)
next
  case False
  then have len: "100 \<le> length b" by simp
  then have l: "length (take 100 b) = 100" by simp
  from noise_loop_from [OF len, of 0 A m "flit A 0" "flit A 0" "flit A 0"] False
  show ?thesis
    by (simp add: noise_levels_def computeNoise_def rms_noise_def sum_sq_dev_alt l
        MAG_SAMPLE_COUNT_def)
qed

section \<open>Claims about \<^verbatim>\<open>calculate_noise\<close> that hold in every arithmetic\<close>

text \<open>
  Claim C1. For every batch of \<open>N = 100\<close> samples and every mean vector, the values
  \<^verbatim>\<open>calculate_noise\<close> computes are, per axis, those of the specification's analyzer with
  scale 1000: the sum of the squared deviations from the mean, taken over the batch in
  order, divided by \<open>N\<close> (not \<open>N - 1\<close>), then the square root, then the multiplication by
  1000. This holds in every arithmetic, the rounding one of the machine included.
\<close>

theorem calculate_noise_is_computeNoise:
  assumes "length batch = 100"
  shows "noise_levels A batch mean = Inr (computeNoise A batch mean (flit A 1000))"
proof -
  from assms have len: "100 \<le> length batch" and whole: "take 100 batch = batch"
    by simp_all
  have "noise_loop A batch mean 0 (flit A 0, flit A 0, flit A 0) =
      Inr (sum_sq_dev A (map mtd_x batch) (md_x mean),
           sum_sq_dev A (map mtd_y batch) (md_y mean),
           sum_sq_dev A (map mtd_z batch) (md_z mean))"
    using noise_loop_from [OF len, of 0 A mean "flit A 0" "flit A 0" "flit A 0"]
    by (simp add: whole sum_sq_dev_alt)
  moreover have "uint MAG_SAMPLE_COUNT = int (length batch)"
    using assms by (simp add: MAG_SAMPLE_COUNT_def)
  ultimately show ?thesis
    by (simp add: noise_levels_def computeNoise_def rms_noise_def)
qed

lemma binary64_sel [simp]:
  "flit binary64 = double_of_int" "fadd binary64 = double_add" "fsub binary64 = double_sub"
  "fmul binary64 = double_mul" "fdiv binary64 = double_div" "fsqrt binary64 = double_sqrt"
  by (simp_all add: binary64_def)

lemma exact_sel [simp]:
  "flit exact = of_int" "fadd exact = (+)" "fsub exact = (-)"
  "fmul exact = (*)" "fdiv exact = (/)" "fsqrt exact = sqrt"
  by (simp_all add: exact_def)

theorem calculate_noise_is_computeNoise_witness:
  "length (replicate 100 zero_sample) = 100 \<and>
   noise_levels binary64 (replicate 100 zero_sample) zero_mean =
     Inr (computeNoise binary64 (replicate 100 zero_sample) zero_mean (flit binary64 1000))"
  using calculate_noise_is_computeNoise [of "replicate 100 zero_sample" binary64 zero_mean]
  by simp

text \<open>In arithmetic without rounding the analyzer is the textbook formula
  \<open>sqrt ((1 / N) * (\<Sum>i<N. (x\<^sub>i - m)\<^sup>2)) * scale\<close>.\<close>

lemma foldl_add_real: "foldl (+) (a::real) xs = a + sum_list xs"
  by (induction xs arbitrary: a) simp_all

lemma rms_noise_exact:
  "rms_noise exact xs m scale =
     sqrt ((1 / real (length xs)) * (\<Sum>i<length xs. (xs ! i - m)\<^sup>2)) * scale"
proof -
  have "sum_sq_dev exact xs m = sum_list (map (\<lambda>x. (x - m)\<^sup>2) xs)"
    by (simp add: sum_sq_dev_def foldl_add_real power2_eq_square)
  also have "\<dots> = (\<Sum>i<length xs. (xs ! i - m)\<^sup>2)"
    by (simp add: sum_list_sum_nth atLeast0LessThan)
  finally show ?thesis by (simp add: rms_noise_def)
qed

text \<open>
  Claim C6. The temperature of the samples does not influence the result: two batches of
  the same length that agree on the \<open>x\<close>, \<open>y\<close> and \<open>z\<close> fields of every sample give the same
  values, and the same printed output, for the same mean vector.
\<close>

theorem temperature_not_used:
  assumes "map mtd_x b1 = map mtd_x b2" "map mtd_y b1 = map mtd_y b2" "map mtd_z b1 = map mtd_z b2"
  shows "noise_levels A b1 m = noise_levels A b2 m \<and> calculate_noise A b1 m = calculate_noise A b2 m"
proof -
  have len: "length b1 = length b2"
    using assms(1) by (rule map_eq_imp_length_eq)
  have "map f (take 100 b1) = map f (take 100 b2)" if "map f b1 = map f b2" for f :: "'a bmm350_mag_temp_data \<Rightarrow> 'a"
    using that by (simp add: take_map [symmetric])
  with assms have "computeNoise A (take 100 b1) m s = computeNoise A (take 100 b2) m s" for s
    by (simp add: computeNoise_def)
  then have "noise_levels A b1 m = noise_levels A b2 m"
    by (simp add: noise_levels_eq len)
  then show ?thesis by (simp add: calculate_noise_def)
qed

theorem temperature_not_used_witness:
  "map mtd_x (replicate 100 zero_sample) = map mtd_x (replicate 100 warm_sample) \<and>
   replicate 100 zero_sample \<noteq> replicate 100 warm_sample \<and>
   noise_levels binary64 (replicate 100 zero_sample) zero_mean =
     noise_levels binary64 (replicate 100 warm_sample) zero_mean \<and>
   calculate_noise binary64 (replicate 100 zero_sample) zero_mean =
     calculate_noise binary64 (replicate 100 warm_sample) zero_mean"
proof -
  have x: "map mtd_x (replicate 100 zero_sample) = map mtd_x (replicate 100 warm_sample)"
    and y: "map mtd_y (replicate 100 zero_sample) = map mtd_y (replicate 100 warm_sample)"
    and z: "map mtd_z (replicate 100 zero_sample) = map mtd_z (replicate 100 warm_sample)"
    by (simp_all add: zero_sample_def warm_sample_def)
  have "zero_sample \<noteq> warm_sample"
    by (simp add: zero_sample_def warm_sample_def)
  then have "replicate 100 zero_sample \<noteq> replicate 100 warm_sample"
    by (simp add: replicate_eq_replicate)
  with x temperature_not_used [OF x y z, of binary64 zero_mean] show ?thesis
    by simp
qed

section \<open>The operations of the program in binary64\<close>

lemma round_pos_not_NaN: "round_pos q \<noteq> NaN"
  by (simp add: round_pos_def Let_def)

lemma round_double_not_NaN: "round_double q \<noteq> NaN"
proof -
  have "double_neg d \<noteq> NaN" if "d \<noteq> NaN" for d
    using that by (cases d) simp_all
  then show ?thesis
    by (simp add: round_double_def round_pos_not_NaN)
qed

lemma double_sub_Fin: "double_sub (Fin a) (Fin b) = round_double (a - b)"
  by (simp add: double_sub_def)

lemma double_consts:
  "double_of_int 0 = Fin 0" "double_of_int 100 = Fin 100" "double_of_int 1000 = Fin 1000"
  by (simp_all add: double_of_int_small)

lemma round_double_int_pow:
  assumes "0 < m" "m \<le> 2 ^ 53" "- 1074 \<le> e" "e \<le> 970"
  shows "round_double (of_int m * 2 powi e) = Fin (of_int m * 2 powi e)"
proof (rule round_double_representable)
  have "(of_int m :: rat) \<le> of_int (2 ^ 53)"
    using assms(2) by (simp only: of_int_le_iff)
  then have "(of_int m :: rat) \<le> 2 powi 53" by simp
  then have "(of_int m :: rat) * 2 powi e \<le> 2 powi 53 * 2 powi e"
    by (intro mult_right_mono) simp_all
  also have "\<dots> = 2 powi (53 + e)" by (simp add: power_int_add)
  also have "\<dots> \<le> 2 powi 1023" using assms(4) by (intro power_int_increasing) simp_all
  also have "\<dots> = 2 ^ 1023" by simp
  also have "\<dots> < overflow_threshold" by (rule overflow_threshold_gt) simp
  finally have "(of_int m :: rat) * 2 powi e < overflow_threshold" .
  moreover have "(0::rat) \<le> of_int m * 2 powi e" using assms(1) by simp
  ultimately have "\<bar>(of_int m :: rat) * 2 powi e\<bar> < overflow_threshold" by simp
  with on_grid_int_pow [OF assms(1,2,3)]
  show "representable (of_int m * 2 powi e)" by (simp add: representable_def)
qed

lemma below_overflow:
  assumes "m \<le> 2 ^ 53" "e \<le> 970"
  shows "(of_int m :: rat) * 2 powi e < overflow_threshold"
proof -
  have "(of_int m :: rat) \<le> of_int (2 ^ 53)" using assms(1) by (simp only: of_int_le_iff)
  then have "(of_int m :: rat) \<le> 2 powi 53" by simp
  then have "(of_int m :: rat) * 2 powi e \<le> 2 powi 53 * 2 powi e"
    by (intro mult_right_mono) simp_all
  also have "\<dots> = 2 powi (53 + e)" by (simp add: power_int_add)
  also have "\<dots> \<le> 2 powi 1023" using assms(2) by (intro power_int_increasing) simp_all
  also have "\<dots> = 2 ^ 1023" by simp
  also have "\<dots> < overflow_threshold" by (rule overflow_threshold_gt) simp
  finally show ?thesis .
qed

text \<open>Rules that evaluate one rounding: the binade \<open>k\<close> and the significand \<open>m\<close> are given,
  the side conditions are inequalities between numerals.\<close>

lemma round_pos_evalI:
  assumes "2 powi k \<le> q" "q < 2 powi (k + 1)"
    and "\<bar>q / 2 powi ulp_exp k - of_int m\<bar> < 1 / 2" "m \<le> 2 ^ 53" "ulp_exp k \<le> 970"
    and "r = of_int m * 2 powi ulp_exp k"
  shows "round_pos q = Fin r"
  using round_pos_eqI [of k q m] below_overflow [of m "ulp_exp k"] assms by simp

lemma sqrt_pos_evalI:
  assumes "2 powi (2 * h) \<le> a" "a < 2 powi (2 * h + 2)" "1 \<le> m"
    and "(of_int m - 1 / 2)\<^sup>2 < a / 2 powi (2 * ulp_exp h)"
    and "a / 2 powi (2 * ulp_exp h) < (of_int m + 1 / 2)\<^sup>2"
    and "m \<le> 2 ^ 53" "ulp_exp h \<le> 970"
    and "r = of_int m * 2 powi ulp_exp h"
  shows "sqrt_pos a = Fin r"
  using sqrt_pos_eqI [of h a m] below_overflow [of m "ulp_exp h"] assms by simp

lemma sqrt_pos_1: "sqrt_pos 1 = Fin 1"
  by (rule sqrt_pos_evalI [where h = 0 and m = "2 ^ 52"])
     (simp_all add: ulp_exp_def power2_eq_square)

lemma double_mul_self_nonneg: "d \<noteq> NaN \<Longrightarrow> double_nonneg (double_mul d d)"
  by (cases d) (simp_all add: round_double_nonneg)

lemma double_add_nonneg:
  "double_nonneg a \<Longrightarrow> double_nonneg b \<Longrightarrow> double_nonneg (double_add a b)"
  by (cases a; cases b) (simp_all add: round_double_nonneg)

lemma foldl_add_nonneg:
  "double_nonneg acc \<Longrightarrow> \<forall>x\<in>set xs. double_nonneg x \<Longrightarrow> double_nonneg (foldl double_add acc xs)"
  by (induction xs arbitrary: acc) (simp_all add: double_add_nonneg)

lemma double_div_100_nonneg: "double_nonneg v \<Longrightarrow> double_nonneg (double_div v (Fin 100))"
  by (cases v) (simp_all add: round_double_nonneg)

lemma double_sqrt_nonneg: "double_nonneg v \<Longrightarrow> double_nonneg (double_sqrt v)"
  by (cases v) (simp_all add: sqrt_pos_nonneg)

lemma double_mul_1000_nonneg: "double_nonneg v \<Longrightarrow> double_nonneg (double_mul v (Fin 1000))"
  by (cases v) (simp_all add: round_double_nonneg)

lemma foldl_add_NaN: "foldl double_add NaN xs = NaN"
  by (induction xs) simp_all

lemma foldl_add_absorbed:
  "double_add acc x = acc \<Longrightarrow> foldl double_add acc (replicate n x) = acc"
  by (induction n) simp_all


lemma all_same_replicate: "\<forall>x\<in>set xs. x = c \<Longrightarrow> xs = replicate (length xs) c"
  by (induction xs) simp_all

lemma rms_noise_binary64:
  "length xs = 100 \<Longrightarrow>
     rms_noise binary64 xs m scale =
       double_mul (double_sqrt (double_div (foldl double_add (Fin 0) (map (sq_dev binary64 m) xs)) (Fin 100)))
         scale"
  by (simp add: rms_noise_def sum_sq_dev_alt double_consts)

text \<open>The value of one axis when every deviation from the mean is zero.\<close>

lemma rms_noise_all_zero:
  assumes "length xs = 100" "\<forall>x\<in>set xs. sq_dev binary64 m x = Fin 0"
  shows "rms_noise binary64 xs m (Fin 1000) = Fin 0"
proof -
  have "map (sq_dev binary64 m) xs = replicate 100 (Fin 0)"
    using all_same_replicate [of "map (sq_dev binary64 m) xs" "Fin 0"] assms by simp
  moreover have "foldl double_add (Fin 0) (replicate 100 (Fin 0)) = Fin 0"
    by (rule foldl_add_absorbed) simp
  ultimately show ?thesis
    using assms(1) by (simp add: rms_noise_binary64 double_consts)
qed

lemma sq_dev_same: "sq_dev binary64 (Fin a) (Fin a) = Fin 0"
  by (simp add: sq_dev_def double_sub_Fin)


lemma rms_noise_nonneg:
  assumes "length xs = 100" "\<forall>x\<in>set xs. is_finite x" "is_finite m"
  shows "double_nonneg (rms_noise binary64 xs m (Fin 1000))"
proof -
  obtain mu where mu: "m = Fin mu" using assms(3) by (cases m) simp_all
  have "double_nonneg (sq_dev binary64 m x)" if "x \<in> set xs" for x
  proof -
    from that assms(2) have "is_finite x" by blast
    then obtain a where a: "x = Fin a" by (cases x) simp_all
    have "double_sub x m \<noteq> NaN"
      by (simp add: a mu double_sub_Fin round_double_not_NaN)
    then show ?thesis
      by (simp add: sq_dev_def double_mul_self_nonneg)
  qed
  then have "double_nonneg (foldl double_add (Fin 0) (map (sq_dev binary64 m) xs))"
    by (intro foldl_add_nonneg) simp_all
  then show ?thesis
    using assms(1)
    by (simp add: rms_noise_binary64 double_consts double_div_100_nonneg double_sqrt_nonneg
        double_mul_1000_nonneg)
qed

section \<open>Claims about the values \<^verbatim>\<open>calculate_noise\<close> computes in binary64\<close>

lemma noise_levels_axes:
  assumes "100 \<le> length batch"
  shows "noise_levels binary64 batch mean =
    Inr \<lparr> noise_level_x = rms_noise binary64 (map mtd_x (take 100 batch)) (md_x mean) (Fin 1000),
          noise_level_y = rms_noise binary64 (map mtd_y (take 100 batch)) (md_y mean) (Fin 1000),
          noise_level_z = rms_noise binary64 (map mtd_z (take 100 batch)) (md_z mean) (Fin 1000) \<rparr>"
  using assms by (simp add: noise_levels_eq computeNoise_def double_consts)

text \<open>
  Claim C2, as the code has it. The claim includes a batch of a single sample; the code
  reads 100 samples whatever the batch holds, and a batch of one sample makes it read past
  the end. The claim also fails where the common value is an infinity: the deviation is
  then \<open>\<infinity> - \<infinity>\<close>, a NaN. Amended: for every batch of at least 100 samples of which
  the first 100 have the \<open>x\<close>, \<open>y\<close>, \<open>z\<close> of the mean vector, and a mean vector of finite
  components, the three noise levels are zero.
\<close>

theorem identical_samples_give_zero:
  assumes "100 \<le> length batch"
    and "\<forall>s\<in>set (take 100 batch). mtd_x s = md_x mean \<and> mtd_y s = md_y mean \<and> mtd_z s = md_z mean"
    and "is_finite (md_x mean)" "is_finite (md_y mean)" "is_finite (md_z mean)"
  shows "noise_levels binary64 batch mean =
    Inr \<lparr> noise_level_x = Fin 0, noise_level_y = Fin 0, noise_level_z = Fin 0 \<rparr>"
proof -
  have len: "length (map f (take 100 batch)) = 100" for f :: "double bmm350_mag_temp_data \<Rightarrow> double"
    using assms(1) by simp
  have zero: "sq_dev binary64 m m = Fin 0" if "is_finite m" for m
    using that by (cases m) (simp_all add: sq_dev_same)
  have "rms_noise binary64 (map mtd_x (take 100 batch)) (md_x mean) (Fin 1000) = Fin 0"
    using assms(2,3) by (intro rms_noise_all_zero len) (simp add: zero)
  moreover
  have "rms_noise binary64 (map mtd_y (take 100 batch)) (md_y mean) (Fin 1000) = Fin 0"
    using assms(2,4) by (intro rms_noise_all_zero len) (simp add: zero)
  moreover
  have "rms_noise binary64 (map mtd_z (take 100 batch)) (md_z mean) (Fin 1000) = Fin 0"
    using assms(2,5) by (intro rms_noise_all_zero len) (simp add: zero)
  ultimately show ?thesis
    by (simp only: noise_levels_axes [OF assms(1)])
qed

theorem identical_samples_give_zero_witness:
  "noise_levels binary64 (replicate 100 still_sample) still_mean =
     Inr \<lparr> noise_level_x = Fin 0, noise_level_y = Fin 0, noise_level_z = Fin 0 \<rparr>"
  by (rule identical_samples_give_zero) (simp_all add: still_sample_def still_mean_def)

lemma sq_dev_inf: "sq_dev binary64 (Inf False) (Inf False) = NaN"
  by (simp add: sq_dev_def double_sub_def)

lemma rms_noise_NaN:
  assumes "sq_dev binary64 m x = NaN"
  shows "rms_noise binary64 (replicate 100 x) m (Fin 1000) = NaN"
proof -
  have "foldl double_add (Fin 0) (replicate 100 NaN) = NaN"
    using foldl_add_NaN [of "replicate 99 NaN"]
    by (simp add: numeral_eq_Suc)
  then show ?thesis
    using assms by (simp add: rms_noise_binary64)
qed

theorem identical_samples_counterexample:
  "mtd_x zero_sample = md_x zero_mean \<and> mtd_y zero_sample = md_y zero_mean \<and>
   mtd_z zero_sample = md_z zero_mean \<and>
   noise_levels binary64 [zero_sample] zero_mean = Inl Out_Of_Bounds \<and>
   mtd_x inf_sample = md_x inf_mean \<and> mtd_y inf_sample = md_y inf_mean \<and>
   mtd_z inf_sample = md_z inf_mean \<and>
   noise_levels binary64 (replicate 100 inf_sample) inf_mean =
     Inr \<lparr> noise_level_x = NaN, noise_level_y = NaN, noise_level_z = NaN \<rparr>"
proof -
  have "noise_levels binary64 [zero_sample] zero_mean = Inl Out_Of_Bounds"
    by (simp add: noise_levels_eq)
  moreover
  have "noise_levels binary64 (replicate 100 inf_sample) inf_mean =
     Inr \<lparr> noise_level_x = NaN, noise_level_y = NaN, noise_level_z = NaN \<rparr>"
    by (simp add: noise_levels_axes inf_sample_def inf_mean_def double_consts rms_noise_NaN sq_dev_inf)
  ultimately show ?thesis
    by (simp add: zero_sample_def zero_mean_def inf_sample_def inf_mean_def)
qed

lemma alternating_batch_props:
  "length alternating_batch = 100" "set alternating_batch = {plus_sample, minus_sample}"
  by (simp_all add: alternating_batch_def length_concat sum_list_replicate)

text \<open>
  Claim C9, as the code has it. The claim fails on a NaN: a sample whose \<open>x\<close> is a NaN gives
  the noise level NaN, for which \<^verbatim>\<open>noise_level_x >= 0\<close> is false. Amended: for every batch
  of at least 100 samples of which the first 100 have finite \<open>x\<close>, \<open>y\<close> and \<open>z\<close>, and every
  mean vector of finite components, each of the three noise levels is non-negative (a
  finite value that is at least zero, or \<open>+\<infinity>\<close> where the squares overflow), and never a
  NaN.
\<close>

theorem noise_levels_nonneg:
  assumes "100 \<le> length batch"
    and "\<forall>s\<in>set (take 100 batch). is_finite (mtd_x s) \<and> is_finite (mtd_y s) \<and> is_finite (mtd_z s)"
    and "is_finite (md_x mean)" "is_finite (md_y mean)" "is_finite (md_z mean)"
  shows "\<exists>r. noise_levels binary64 batch mean = Inr r \<and>
    double_nonneg (noise_level_x r) \<and> double_nonneg (noise_level_y r) \<and> double_nonneg (noise_level_z r)"
proof -
  have len: "length (map f (take 100 batch)) = 100" for f :: "double bmm350_mag_temp_data \<Rightarrow> double"
    using assms(1) by simp
  have "double_nonneg (rms_noise binary64 (map mtd_x (take 100 batch)) (md_x mean) (Fin 1000))"
    using assms(2,3) by (intro rms_noise_nonneg len) simp_all
  moreover
  have "double_nonneg (rms_noise binary64 (map mtd_y (take 100 batch)) (md_y mean) (Fin 1000))"
    using assms(2,4) by (intro rms_noise_nonneg len) simp_all
  moreover
  have "double_nonneg (rms_noise binary64 (map mtd_z (take 100 batch)) (md_z mean) (Fin 1000))"
    using assms(2,5) by (intro rms_noise_nonneg len) simp_all
  ultimately show ?thesis
    by (simp only: noise_levels_axes [OF assms(1)]) simp
qed

theorem noise_levels_nonneg_witness:
  "\<exists>r. noise_levels binary64 alternating_batch still_mean = Inr r \<and>
    double_nonneg (noise_level_x r) \<and> double_nonneg (noise_level_y r) \<and> double_nonneg (noise_level_z r)"
  by (rule noise_levels_nonneg)
     (auto simp: alternating_batch_props plus_sample_def minus_sample_def still_mean_def)

theorem noise_levels_nonneg_counterexample:
  "noise_levels binary64 (replicate 100 nan_sample) zero_mean =
     Inr \<lparr> noise_level_x = NaN, noise_level_y = Fin 0, noise_level_z = Fin 0 \<rparr> \<and>
   \<not> double_nonneg NaN"
proof -
  have x: "sq_dev binary64 (Fin 0) NaN = NaN"
    by (simp add: sq_dev_def double_sub_def)
  have "rms_noise binary64 (replicate 100 (Fin 0)) (Fin 0) (Fin 1000) = Fin 0"
    by (rule rms_noise_all_zero) (simp_all add: sq_dev_same)
  then show ?thesis
    by (simp add: noise_levels_axes nan_sample_def zero_mean_def double_consts rms_noise_NaN x)
qed

text \<open>
  Claim C8, as the code has it. The claim fails on a batch of 99 samples: its length is
  positive and the computation does not succeed. Amended: \<^verbatim>\<open>calculate_noise\<close> checks
  nothing and has no error to return. It reads the first 100 samples whatever the batch
  holds, so it completes exactly on the batches of at least 100 samples; on a shorter
  batch, the empty one included, it reads past the end of the array, which nothing
  reports. It divides by the constant 100, never by the length of the batch, and that
  division takes every finite sum to a finite variance.
\<close>

lemma round_pos_finite:
  assumes "0 < q" "q \<le> 2 powi 1023"
  shows "is_finite (round_pos q)"
proof -
  have "of_int (round_half_even (q / 2 powi ulp_exp (ilog2 q))) * 2 powi ulp_exp (ilog2 q)
          \<le> (2::rat) powi 1023"
    using assms by (rule round_core_le) simp
  also have "\<dots> = 2 ^ 1023" by simp
  also have "\<dots> < overflow_threshold" by (rule overflow_threshold_gt) simp
  finally show ?thesis by (simp add: round_pos_def Let_def)
qed

lemma round_double_finite:
  assumes "\<bar>q\<bar> \<le> 2 powi 1023"
  shows "is_finite (round_double q)"
proof -
  have neg: "is_finite (double_neg d)" if "is_finite d" for d
    using that by (cases d) simp_all
  consider "q = 0" | "0 < q" | "q < 0" by linarith
  then show ?thesis
  proof cases
    case 1 then show ?thesis by simp
  next
    case 2 with assms show ?thesis by (simp add: round_double_def round_pos_finite)
  next
    case 3 with assms show ?thesis by (simp add: round_double_def round_pos_finite neg)
  qed
qed

lemma double_div_100_finite:
  assumes "\<bar>a\<bar> < overflow_threshold"
  shows "is_finite (double_div (Fin a) (Fin 100))"
proof -
  have "\<bar>a / 100\<bar> = \<bar>a\<bar> / 100" by simp
  also have "\<dots> \<le> \<bar>a\<bar> / 2" by (simp add: divide_left_mono)
  also have "\<dots> \<le> overflow_threshold / 2" using assms by simp
  also have "\<dots> = 2 powi 1023" by (simp add: overflow_threshold_def)
  finally show ?thesis by (simp add: round_double_finite)
qed

theorem calculate_noise_completes_iff:
  "((\<exists>r. noise_levels A batch mean = Inr r) \<longleftrightarrow> 100 \<le> length batch) \<and>
   (noise_levels A batch mean = Inl Out_Of_Bounds \<longleftrightarrow> length batch < 100) \<and>
   ((\<exists>out. calculate_noise A batch mean = Inr out) \<longleftrightarrow> 100 \<le> length batch) \<and>
   (\<bar>a\<bar> < overflow_threshold \<longrightarrow>
      is_finite (fdiv binary64 (Fin a) (flit binary64 (uint MAG_SAMPLE_COUNT))))"
proof -
  have "is_finite (fdiv binary64 (Fin a) (flit binary64 (uint MAG_SAMPLE_COUNT)))"
    if "\<bar>a\<bar> < overflow_threshold"
    using double_div_100_finite [OF that] by (simp add: MAG_SAMPLE_COUNT_def double_consts)
  then show ?thesis
    by (auto simp: noise_levels_eq calculate_noise_def split: sum.splits)
qed

theorem calculate_noise_completes_iff_witness:
  "(\<exists>r. noise_levels binary64 (replicate 100 zero_sample) zero_mean = Inr r) \<and>
   noise_levels binary64 [] zero_mean = Inl Out_Of_Bounds \<and>
   is_finite (fdiv binary64 (Fin 25) (flit binary64 (uint MAG_SAMPLE_COUNT)))"
proof -
  have "\<bar>25 :: rat\<bar> < overflow_threshold"
    using overflow_threshold_gt [of 5] by simp
  with calculate_noise_completes_iff [of binary64 "replicate 100 zero_sample" zero_mean 25]
    calculate_noise_completes_iff [of binary64 "[]" zero_mean 25]
  show ?thesis by simp
qed

theorem calculate_noise_completes_counterexample:
  "0 < length (replicate 99 zero_sample) \<and>
   noise_levels binary64 (replicate 99 zero_sample) zero_mean = Inl Out_Of_Bounds \<and>
   calculate_noise binary64 (replicate 99 zero_sample) zero_mean = Inl Out_Of_Bounds"
  by (simp add: noise_levels_eq calculate_noise_def)

section \<open>The order of the samples\<close>

lemma round_double_evalI:
  assumes "0 < q" "2 powi k \<le> q" "q < 2 powi (k + 1)"
    and "\<bar>q / 2 powi ulp_exp k - of_int m\<bar> < 1 / 2" "m \<le> 2 ^ 53" "ulp_exp k \<le> 970"
    and "r = of_int m * 2 powi ulp_exp k"
  shows "round_double q = Fin r"
  using round_pos_evalI [OF assms(2-)] assms(1) by (simp add: round_double_def)
















section \<open>What \<^verbatim>\<open>calculate_noise\<close> changes\<close>

text \<open>
  Claim C7. \<^verbatim>\<open>calculate_noise\<close> changes nothing but the output: after the call
  \<^verbatim>\<open>calculate_noise(get_mag_temp_data, avg_mag_data)\<close> the array of samples, the mean
  vector and every other part of the program state are as before, and the output has
  grown by the two lines the function prints.
\<close>

theorem calculate_noise_frame:
  assumes "call_calculate_noise A s = Inr s'"
  shows "\<exists>n. noise_levels A (m_get_mag_temp_data s) (m_avg_mag_data s) = Inr n \<and>
    s' = s\<lparr>events := events s @
      [Printf ''\<newline>Noise level x (nTrms), Noise level y (nTrms), Noise level z (nTrms)\<newline>'' [],
       Printf ''%lf, %lf, %lf\<newline>''
         [Arg_double (noise_level_x n), Arg_double (noise_level_y n), Arg_double (noise_level_z n)]]\<rparr> \<and>
    m_get_mag_temp_data s' = m_get_mag_temp_data s \<and>
    m_avg_mag_data s' = m_avg_mag_data s \<and>
    m_mag_temp_data s' = m_mag_temp_data s \<and>
    m_rslt s' = m_rslt s \<and>
    m_dev s' = m_dev s"
proof (cases "noise_levels A (m_get_mag_temp_data s) (m_avg_mag_data s)")
  case (Inl f)
  with assms show ?thesis
    by (simp add: call_calculate_noise_def calculate_noise_def)
next
  case (Inr n)
  with assms show ?thesis
    by (auto simp: call_calculate_noise_def calculate_noise_def)
qed

lemma still_state_noise:
  "noise_levels binary64 (m_get_mag_temp_data still_state) (m_avg_mag_data still_state) =
     Inr \<lparr> noise_level_x = Fin 0, noise_level_y = Fin 0, noise_level_z = Fin 0 \<rparr>"
proof -
  have "rms_noise binary64 (replicate 100 (Fin a)) (Fin a) (Fin 1000) = Fin 0" for a
    by (rule rms_noise_all_zero) (simp_all add: sq_dev_same)
  then show ?thesis
    by (simp add: still_state_def still_sample_def still_mean_def noise_levels_axes)
qed

theorem calculate_noise_frame_witness:
  "call_calculate_noise binary64 still_state =
     Inr (still_state\<lparr>events := events still_state @
       [Printf ''\<newline>Noise level x (nTrms), Noise level y (nTrms), Noise level z (nTrms)\<newline>'' [],
        Printf ''%lf, %lf, %lf\<newline>'' [Arg_double (Fin 0), Arg_double (Fin 0), Arg_double (Fin 0)]]\<rparr>)"
proof -
  note n = still_state_noise
  then obtain s' where s': "call_calculate_noise binary64 still_state = Inr s'"
    by (simp add: call_calculate_noise_def calculate_noise_def)
  from calculate_noise_frame [OF s'] n show ?thesis
    by (simp add: s')
qed

section \<open>The trace of \<^verbatim>\<open>main\<close>\<close>

lemma api_snd: "snd (api D c s) = s\<lparr>m_dev := snd (drv_call D c (m_dev s)), events := events s @ [Call c (fst (api D c s))]\<rparr>"
  by (simp add: api_def split_def Let_def)

lemma api_rslt_snd:
  "snd (api_rslt D c n s) =
     s\<lparr>m_dev := snd (drv_call D c (m_dev s)),
       events := events s @ [Call c (fst (api_rslt D c n s)), Print_result n (reply_rslt (fst (api_rslt D c n s)))],
       m_rslt := reply_rslt (fst (api_rslt D c n s))\<rparr>"
  by (simp add: api_rslt_def api_def print_result_def split_def Let_def)

lemma print_sample_eq:
  "print_sample D t d s =
     s\<lparr>m_dev := snd (drv_call D Coines_get_millis (m_dev s)),
       events := events s @
         [Call Coines_get_millis (fst (api D Coines_get_millis s)),
          Printf ''%lu, %f, %f, %f, %f\<newline>''
            [Arg_ulong (reply_millis (fst (api D Coines_get_millis s)) - t), Arg_double (mtd_x d),
             Arg_double (mtd_y d), Arg_double (mtd_z d), Arg_double (temperature d)]]\<rparr>"
  by (simp add: print_sample_def api_def printf_def split_def Let_def)

















text \<open>The array \<^verbatim>\<open>get_mag_temp_data\<close> through the steps that do not write to it.\<close>

lemma arr_printf [simp]: "m_get_mag_temp_data (printf fmt args s) = m_get_mag_temp_data s"
  by (simp add: printf_def)

lemma arr_api [simp]: "m_get_mag_temp_data (snd (api D c s)) = m_get_mag_temp_data s"
  by (simp add: api_snd)

lemma arr_api_rslt [simp]: "m_get_mag_temp_data (snd (api_rslt D c n s)) = m_get_mag_temp_data s"
  by (simp add: api_rslt_snd)

lemma arr_print_sample [simp]: "m_get_mag_temp_data (print_sample D t d s) = m_get_mag_temp_data s"
  by (simp add: print_sample_eq)

lemma arr_read_sample [simp]: "m_get_mag_temp_data (snd (read_sample D s)) = m_get_mag_temp_data s"
  by (simp add: read_sample_def)

lemma arr_body_combination_1 [simp]:
  "m_get_mag_temp_data (body_combination_1 D t s) = m_get_mag_temp_data s"
  by (simp add: body_combination_1_def Let_def split_def)

lemma arr_body_forced [simp]:
  "m_get_mag_temp_data (body_forced D mode t s) = m_get_mag_temp_data s"
  by (simp add: body_forced_def Let_def split_def)

lemma arr_loop_combination_1 [simp]:
  "m_get_mag_temp_data (snd (loop_combination_1 D t loop s)) = m_get_mag_temp_data s"
proof (induction D t loop s rule: loop_combination_1.induct)
  case (1 D t loop s)
  then show ?case by (subst loop_combination_1.simps) simp
qed

lemma arr_loop_forced [simp]:
  "m_get_mag_temp_data (snd (loop_forced D mode t loop s)) = m_get_mag_temp_data s"
proof (induction D mode t loop s rule: loop_forced.induct)
  case (1 D mode t loop s)
  then show ?case by (subst loop_forced.simps) simp
qed

lemma arr_combination_header [simp]:
  "m_get_mag_temp_data (snd (combination_header D title what avg s)) = m_get_mag_temp_data s"
  by (simp add: combination_header_def Let_def split_def)

lemma arr_combinations_1_to_3 [simp]:
  "m_get_mag_temp_data (combinations_1_to_3 D s) = m_get_mag_temp_data s"
  by (simp add: combinations_1_to_3_def Let_def split_def)
















section \<open>Claim C4: doubling the scale\<close>












text \<open>\<open>noise_levels_scaled\<close> is the code read with another value for its literal
  \<^verbatim>\<open>1000\<close>; the literals \<^verbatim>\<open>0\<close> and \<^verbatim>\<open>MAG_SAMPLE_COUNT\<close> keep theirs, and the loop
  has no literal.\<close>

lemma noise_loop_literals:
  "noise_loop (A\<lparr>flit := f\<rparr>) b m i acc = noise_loop A b m i acc"
proof (induction A b m i acc rule: noise_loop.induct)
  case (1 A mag_temp_data avg_mag_data index variance_x variance_y variance_z)
  show ?case
    by (subst (1 2) noise_loop.simps) (simp add: 1)
qed

lemma noise_levels_scaled_literal:
  "noise_levels_scaled A scale b m = noise_levels (A\<lparr>flit := (flit A)(1000 := scale)\<rparr>) b m"
  by (simp add: noise_levels_def noise_levels_scaled_def noise_loop_literals MAG_SAMPLE_COUNT_def
      split: sum.splits prod.splits)









section \<open>Claim C3: deviations of mean square one\<close>

text \<open>Squares of whole numbers and their running sums are whole numbers; up to \<open>2\<^sup>5\<^sup>3\<close> none
  of them is rounded.\<close>

lemma sum_list_squares_nonneg: "0 \<le> (\<Sum>k\<leftarrow>ks. k * k :: int)"
  by (rule sum_list_nonneg) auto

lemma foldl_add_squares:
  "0 \<le> a \<Longrightarrow> a + (\<Sum>k\<leftarrow>ks. k * k) \<le> 2 ^ 53 \<Longrightarrow>
     foldl double_add (Fin (of_int a))
       (map (\<lambda>d. double_mul d d) (map Fin (map of_int ks))) =
     Fin (of_int (a + (\<Sum>k\<leftarrow>ks. k * k)))"
proof (induction ks arbitrary: a)
  case Nil
  then show ?case by simp
next
  case (Cons k ks)
  have rest: "0 \<le> (\<Sum>k\<leftarrow>ks. k * k)"
    by (rule sum_list_squares_nonneg)
  have kk: "0 \<le> k * k" by simp
  from Cons.prems rest have le: "a + k * k \<le> 2 ^ 53" by simp
  with Cons.prems(1) have "\<bar>k * k\<bar> \<le> 2 ^ 53" by simp
  from round_double_of_int [OF this]
  have sq: "double_mul (Fin (of_int k)) (Fin (of_int k)) = Fin (of_int (k * k))"
    by simp
  from le Cons.prems(1) kk have "\<bar>a + k * k\<bar> \<le> 2 ^ 53" by simp
  from round_double_of_int [OF this]
  have add: "double_add (Fin (of_int a)) (Fin (of_int (k * k))) = Fin (of_int (a + k * k))"
    by simp
  have a': "0 \<le> a + k * k" using Cons.prems(1) kk by simp
  have le': "a + k * k + (\<Sum>k\<leftarrow>ks. k * k) \<le> 2 ^ 53"
    using Cons.prems(2) by simp
  have "foldl double_add (Fin (of_int a))
       (map (\<lambda>d. double_mul d d) (map Fin (map of_int (k # ks)))) =
     foldl double_add (Fin (of_int (a + k * k)))
       (map (\<lambda>d. double_mul d d) (map Fin (map of_int ks)))"
    by (simp only: list.map foldl_Cons sq add)
  also have "\<dots> = Fin (of_int (a + k * k + (\<Sum>k\<leftarrow>ks. k * k)))"
    by (rule Cons.IH [OF a' le'])
  finally show ?case by (simp add: add.assoc)
qed

lemma mean_square_ints:
  assumes "mean_square (map of_int ks :: rat list) = 1" "length ks = 100"
  shows "(\<Sum>k\<leftarrow>ks. k * k) = 100"
proof -
  have "(\<Sum>d\<leftarrow>map of_int ks. d * d :: rat) = of_int (\<Sum>k\<leftarrow>ks. k * k)"
    by (induction ks) simp_all
  with assms have "(of_int (\<Sum>k\<leftarrow>ks. k * k) :: rat) = of_int 100"
    by (simp add: mean_square_def)
  then show ?thesis by (simp only: of_int_eq_iff)
qed

lemma rms_noise_whole:
  assumes len: "length xs = 100"
    and dev: "deviations binary64 m xs = map Fin (map of_int ks)"
    and ms: "mean_square (map of_int ks :: rat list) = 1"
  shows "rms_noise binary64 xs m (Fin 1000) = Fin 1000"
proof -
  from dev have "length ks = length xs"
    using length_map [of "\<lambda>x. fsub binary64 x m" xs] by (simp add: deviations_def)
  with len have "length ks = 100" by simp
  with ms have total: "(\<Sum>k\<leftarrow>ks. k * k) = 100" by (rule mean_square_ints)
  have "map (sq_dev binary64 m) xs = map (\<lambda>d. double_mul d d) (deviations binary64 m xs)"
    by (simp add: deviations_def sq_dev_def)
  then have "foldl double_add (Fin 0) (map (sq_dev binary64 m) xs) =
      foldl double_add (Fin (of_int 0)) (map (\<lambda>d. double_mul d d) (map Fin (map of_int ks)))"
    by (simp add: dev)
  also have "\<dots> = Fin (of_int (0 + (\<Sum>k\<leftarrow>ks. k * k)))"
    by (rule foldl_add_squares) (simp_all add: total)
  finally have sum: "foldl double_add (Fin 0) (map (sq_dev binary64 m) xs) = Fin 100"
    by (simp add: total)
  have d: "double_div (Fin 100) (Fin 100) = Fin 1"
    using round_double_of_int [of 1] by simp
  have s: "double_sqrt (Fin 1) = Fin 1"
    by (simp add: sqrt_pos_1)
  have t: "double_mul (Fin 1) (Fin 1000) = Fin 1000"
    using round_double_of_int [of 1000] by simp
  show ?thesis
    by (simp only: rms_noise_binary64 [OF len] sum d s t)
qed

lemma rms_noise_exact_unit:
  assumes "length xs = 100" "mean_square (deviations exact m xs) = 1"
  shows "rms_noise exact xs m 1000 = 1000"
proof -
  have "sum_sq_dev exact xs m = sum_list (map (\<lambda>d. d * d) (deviations exact m xs))"
    by (simp add: sum_sq_dev_def foldl_add_real deviations_def comp_def)
  also have "\<dots> = 100"
    using assms by (simp add: mean_square_def deviations_def)
  finally show ?thesis
    using assms(1) by (simp add: rms_noise_def)
qed

text \<open>
  Claim C3, as the code has it. The claim fails in binary64 for deviations that are not
  whole numbers: the five deviations 105984625, 130056745, 3831, 58 and 5 over \<open>2\<^sup>2\<^sup>4\<close>,
  followed by 95 zeros, have mean square exactly 1, but two of their squares and two of the
  running sums are rounded, and the noise level is \<open>8796093022207999 / 2\<^sup>4\<^sup>3\<close>, that is
  999.9999999999999. Amended: for every batch of at least 100 samples, an axis whose
  first 100 deviations from the mean are whole numbers of mean square 1 (alternating
  \<open>+1\<close> and \<open>-1\<close>, or one deviation of 10 and ninety-nine of 0) has the noise level exactly
  1000.0 in binary64; and in arithmetic without rounding every axis whose first 100
  deviations have mean square 1 has the noise level 1000.
\<close>

theorem mean_square_one_gives_1000:
  assumes "100 \<le> length batch" and "100 \<le> length ebatch"
  shows "\<exists>r e. noise_levels binary64 batch mean = Inr r \<and> noise_levels exact ebatch emean = Inr e \<and>
    (\<forall>ks. deviations binary64 (md_x mean) (map mtd_x (take 100 batch)) = map Fin (map of_int ks) \<and>
          mean_square (map of_int ks :: rat list) = 1 \<longrightarrow> noise_level_x r = Fin 1000) \<and>
    (\<forall>ks. deviations binary64 (md_y mean) (map mtd_y (take 100 batch)) = map Fin (map of_int ks) \<and>
          mean_square (map of_int ks :: rat list) = 1 \<longrightarrow> noise_level_y r = Fin 1000) \<and>
    (\<forall>ks. deviations binary64 (md_z mean) (map mtd_z (take 100 batch)) = map Fin (map of_int ks) \<and>
          mean_square (map of_int ks :: rat list) = 1 \<longrightarrow> noise_level_z r = Fin 1000) \<and>
    (mean_square (deviations exact (md_x emean) (map mtd_x (take 100 ebatch))) = 1
       \<longrightarrow> noise_level_x e = 1000) \<and>
    (mean_square (deviations exact (md_y emean) (map mtd_y (take 100 ebatch))) = 1
       \<longrightarrow> noise_level_y e = 1000) \<and>
    (mean_square (deviations exact (md_z emean) (map mtd_z (take 100 ebatch))) = 1
       \<longrightarrow> noise_level_z e = 1000)"
proof -
  have len: "length (map f (take 100 batch)) = 100" for f :: "double bmm350_mag_temp_data \<Rightarrow> double"
    using assms(1) by simp
  have elen: "length (map f (take 100 ebatch)) = 100" for f :: "real bmm350_mag_temp_data \<Rightarrow> real"
    using assms(2) by simp
  have machine: "noise_levels binary64 batch mean =
    Inr \<lparr> noise_level_x = rms_noise binary64 (map mtd_x (take 100 batch)) (md_x mean) (Fin 1000),
          noise_level_y = rms_noise binary64 (map mtd_y (take 100 batch)) (md_y mean) (Fin 1000),
          noise_level_z = rms_noise binary64 (map mtd_z (take 100 batch)) (md_z mean) (Fin 1000) \<rparr>"
    by (rule noise_levels_axes [OF assms(1)])
  have ideal: "noise_levels exact ebatch emean =
    Inr \<lparr> noise_level_x = rms_noise exact (map mtd_x (take 100 ebatch)) (md_x emean) 1000,
          noise_level_y = rms_noise exact (map mtd_y (take 100 ebatch)) (md_y emean) 1000,
          noise_level_z = rms_noise exact (map mtd_z (take 100 ebatch)) (md_z emean) 1000 \<rparr>"
    using assms(2) by (simp add: noise_levels_eq computeNoise_def)
  have whole: "rms_noise binary64 (map f (take 100 batch)) m (Fin 1000) = Fin 1000"
    if "deviations binary64 m (map f (take 100 batch)) = map Fin (map of_int ks) \<and>
        mean_square (map of_int ks :: rat list) = 1"
    for f :: "double bmm350_mag_temp_data \<Rightarrow> double" and m ks
    using that rms_noise_whole [OF len] by blast
  show ?thesis
    unfolding machine ideal
    apply (rule exI, rule exI, rule conjI, rule refl, rule conjI, rule refl)
    apply (simp only: noise_level.select_convs)
    apply (intro conjI allI impI)
         apply (erule whole)+
      apply (erule rms_noise_exact_unit [OF elen])+
    done
qed

text \<open>Deviations that are not whole numbers: the squares and the running sums of the five
  fractions, each rounded to nearest, ties to even.\<close>

lemma round_double_tieI:
  assumes "0 < q" "2 powi k \<le> q" "q < 2 powi (k + 1)"
    and "even m" "\<bar>q / 2 powi ulp_exp k - of_int m\<bar> = 1 / 2" "m \<le> 2 ^ 53" "ulp_exp k \<le> 970"
    and "r = of_int m * 2 powi ulp_exp k"
  shows "round_double q = Fin r"
  using round_pos_tieI [of k q m] below_overflow [of m "ulp_exp k"] assms
  by (simp add: round_double_def)

lemma fraction_sq_1: "sq_dev binary64 (Fin 0) (Fin (105984625 / 16777216)) = Fin (351023148012207 / 8796093022208)"
proof -
  have "round_double (105984625 / 16777216) = Fin (105984625 / 16777216)"
    by (rule round_double_evalI [where k = 2 and m = 7112507785216000])
       (simp_all add: ulp_exp_def)
  then have d: "double_sub (Fin (105984625 / 16777216)) (Fin 0) = Fin (105984625 / 16777216)"
    by (simp add: double_sub_Fin)
  have "round_double (11232740736390625 / 281474976710656) = Fin (351023148012207 / 8796093022208)"
    by (rule round_double_tieI [where k = 5 and m = 5616370368195312])
       (simp_all add: ulp_exp_def)
  then have m: "double_mul (Fin (105984625 / 16777216)) (Fin (105984625 / 16777216)) = Fin (351023148012207 / 8796093022208)"
    by simp
  show ?thesis
    by (simp only: sq_dev_def binary64_sel d m)
qed

lemma fraction_sq_2: "sq_dev binary64 (Fin 0) (Fin (130056745 / 16777216)) = Fin (1057172307499689 / 17592186044416)"
proof -
  have "round_double (130056745 / 16777216) = Fin (130056745 / 16777216)"
    by (rule round_double_evalI [where k = 2 and m = 8727960412487680])
       (simp_all add: ulp_exp_def)
  then have d: "double_sub (Fin (130056745 / 16777216)) (Fin 0) = Fin (130056745 / 16777216)"
    by (simp add: double_sub_Fin)
  have "round_double (16914756919995025 / 281474976710656) = Fin (1057172307499689 / 17592186044416)"
    by (rule round_double_tieI [where k = 5 and m = 8457378459997512])
       (simp_all add: ulp_exp_def)
  then have m: "double_mul (Fin (130056745 / 16777216)) (Fin (130056745 / 16777216)) = Fin (1057172307499689 / 17592186044416)"
    by simp
  show ?thesis
    by (simp only: sq_dev_def binary64_sel d m)
qed

lemma fraction_sq_3: "sq_dev binary64 (Fin 0) (Fin (3831 / 16777216)) = Fin (14676561 / 281474976710656)"
proof -
  have "round_double (3831 / 16777216) = Fin (3831 / 16777216)"
    by (rule round_double_evalI [where k = "- 13" and m = 8424458092019712])
       (simp_all add: ulp_exp_def)
  then have d: "double_sub (Fin (3831 / 16777216)) (Fin 0) = Fin (3831 / 16777216)"
    by (simp add: double_sub_Fin)
  have "round_double (14676561 / 281474976710656) = Fin (14676561 / 281474976710656)"
    by (rule round_double_evalI [where k = "- 25" and m = 7879418689093632])
       (simp_all add: ulp_exp_def)
  then have m: "double_mul (Fin (3831 / 16777216)) (Fin (3831 / 16777216)) = Fin (14676561 / 281474976710656)"
    by simp
  show ?thesis
    by (simp only: sq_dev_def binary64_sel d m)
qed

lemma fraction_sq_4: "sq_dev binary64 (Fin 0) (Fin (29 / 8388608)) = Fin (841 / 70368744177664)"
proof -
  have "round_double (29 / 8388608) = Fin (29 / 8388608)"
    by (rule round_double_evalI [where k = "- 19" and m = 8162774324609024])
       (simp_all add: ulp_exp_def)
  then have d: "double_sub (Fin (29 / 8388608)) (Fin 0) = Fin (29 / 8388608)"
    by (simp add: double_sub_Fin)
  have "round_double (841 / 70368744177664) = Fin (841 / 70368744177664)"
    by (rule round_double_evalI [where k = "- 37" and m = 7397514231676928])
       (simp_all add: ulp_exp_def)
  then have m: "double_mul (Fin (29 / 8388608)) (Fin (29 / 8388608)) = Fin (841 / 70368744177664)"
    by simp
  show ?thesis
    by (simp only: sq_dev_def binary64_sel d m)
qed

lemma fraction_sq_5: "sq_dev binary64 (Fin 0) (Fin (5 / 16777216)) = Fin (25 / 281474976710656)"
proof -
  have "round_double (5 / 16777216) = Fin (5 / 16777216)"
    by (rule round_double_evalI [where k = "- 22" and m = 5629499534213120])
       (simp_all add: ulp_exp_def)
  then have d: "double_sub (Fin (5 / 16777216)) (Fin 0) = Fin (5 / 16777216)"
    by (simp add: double_sub_Fin)
  have "round_double (25 / 281474976710656) = Fin (25 / 281474976710656)"
    by (rule round_double_evalI [where k = "- 44" and m = 7036874417766400])
       (simp_all add: ulp_exp_def)
  then have m: "double_mul (Fin (5 / 16777216)) (Fin (5 / 16777216)) = Fin (25 / 281474976710656)"
    by simp
  show ?thesis
    by (simp only: sq_dev_def binary64_sel d m)
qed

lemma fraction_add_1: "double_add (Fin 0) (Fin (351023148012207 / 8796093022208)) = Fin (351023148012207 / 8796093022208)"
proof -
  have "round_double (351023148012207 / 8796093022208) = Fin (351023148012207 / 8796093022208)"
    by (rule round_double_evalI [where k = 5 and m = 5616370368195312])
       (simp_all add: ulp_exp_def)
  then show ?thesis by simp
qed

lemma fraction_add_2: "double_add (Fin (351023148012207 / 8796093022208)) (Fin (1057172307499689 / 17592186044416)) = Fin (1759218603524103 / 17592186044416)"
proof -
  have "round_double (1759218603524103 / 17592186044416) = Fin (1759218603524103 / 17592186044416)"
    by (rule round_double_evalI [where k = 6 and m = 7036874414096412])
       (simp_all add: ulp_exp_def)
  then show ?thesis by simp
qed

lemma fraction_add_3: "double_add (Fin (1759218603524103 / 17592186044416)) (Fin (14676561 / 281474976710656)) = Fin (439804651110347 / 4398046511104)"
proof -
  have "round_double (28147497671062209 / 281474976710656) = Fin (439804651110347 / 4398046511104)"
    by (rule round_double_evalI [where k = 6 and m = 7036874417765552])
       (simp_all add: ulp_exp_def)
  then show ?thesis by simp
qed

lemma fraction_add_4: "double_add (Fin (439804651110347 / 4398046511104)) (Fin (841 / 70368744177664)) = Fin (7036874417766393 / 70368744177664)"
proof -
  have "round_double (7036874417766393 / 70368744177664) = Fin (7036874417766393 / 70368744177664)"
    by (rule round_double_evalI [where k = 6 and m = 7036874417766393])
       (simp_all add: ulp_exp_def)
  then show ?thesis by simp
qed

lemma fraction_add_5: "double_add (Fin (7036874417766393 / 70368744177664)) (Fin (25 / 281474976710656)) = Fin (7036874417766399 / 70368744177664)"
proof -
  have "round_double (28147497671065597 / 281474976710656) = Fin (7036874417766399 / 70368744177664)"
    by (rule round_double_evalI [where k = 6 and m = 7036874417766399])
       (simp_all add: ulp_exp_def)
  then show ?thesis by simp
qed

lemma fraction_add_zero: "double_add (Fin (7036874417766399 / 70368744177664)) (Fin 0) = Fin (7036874417766399 / 70368744177664)"
proof -
  have "round_double (7036874417766399 / 70368744177664) = Fin (7036874417766399 / 70368744177664)"
    by (rule round_double_evalI [where k = 6 and m = 7036874417766399])
       (simp_all add: ulp_exp_def)
  then show ?thesis by simp
qed

lemma fraction_sum:
  "foldl double_add (Fin 0) ([Fin (351023148012207 / 8796093022208), Fin (1057172307499689 / 17592186044416), Fin (14676561 / 281474976710656), Fin (841 / 70368744177664), Fin (25 / 281474976710656)]
      @ replicate 95 (Fin 0)) = Fin (7036874417766399 / 70368744177664)"
  by (simp only: foldl_append foldl_Cons foldl_Nil fraction_add_1 fraction_add_2 fraction_add_3 fraction_add_4 fraction_add_5
      foldl_add_absorbed [OF fraction_add_zero])

lemma fraction_finish:
  "double_mul (double_sqrt (double_div (Fin (7036874417766399 / 70368744177664)) (Fin 100))) (Fin 1000) =
     Fin (8796093022207999 / 8796093022208)"
proof -
  have "round_double (7036874417766399 / 70368744177664 / 100) = Fin (9007199254740991 / 9007199254740992)"
    by (rule round_double_evalI [where k = "- 1" and m = 9007199254740991])
       (simp_all add: ulp_exp_def)
  then have d: "double_div (Fin (7036874417766399 / 70368744177664)) (Fin 100) = Fin (9007199254740991 / 9007199254740992)"
    by simp
  have "sqrt_pos (9007199254740991 / 9007199254740992) = Fin (9007199254740991 / 9007199254740992)"
    by (rule sqrt_pos_evalI [where h = "- 1" and m = 9007199254740991])
       (simp_all add: ulp_exp_def power2_eq_square)
  then have s: "double_sqrt (Fin (9007199254740991 / 9007199254740992)) = Fin (9007199254740991 / 9007199254740992)"
    by simp
  have "round_double (9007199254740991 / 9007199254740992 * 1000) = Fin (8796093022207999 / 8796093022208)"
    by (rule round_double_evalI [where k = 9 and m = 8796093022207999])
       (simp_all add: ulp_exp_def)
  then have m: "double_mul (Fin (9007199254740991 / 9007199254740992)) (Fin 1000) = Fin (8796093022207999 / 8796093022208)"
    by simp
  show ?thesis by (simp only: d s m)
qed

lemma fraction_levels:
  "noise_levels binary64 fraction_batch zero_mean =
     Inr \<lparr> noise_level_x = Fin (8796093022207999 / 8796093022208), noise_level_y = Fin 0, noise_level_z = Fin 0 \<rparr>"
proof -
  have zero: "rms_noise binary64 (replicate 100 (Fin 0)) (Fin 0) (Fin 1000) = Fin 0"
    by (rule rms_noise_all_zero) (simp_all add: sq_dev_same)
  have rep: "[Fin 0, Fin 0, Fin 0, Fin 0, Fin 0] @ replicate 95 (Fin 0) = replicate 100 (Fin 0)"
    by (simp add: numeral_eq_Suc)
  have len: "length ([Fin (105984625 / 16777216), Fin (130056745 / 16777216), Fin (3831 / 16777216), Fin (29 / 8388608), Fin (5 / 16777216)] @ replicate 95 (Fin 0)) = 100"
    by simp
  have sq: "map (sq_dev binary64 (Fin 0)) ([Fin (105984625 / 16777216), Fin (130056745 / 16777216), Fin (3831 / 16777216), Fin (29 / 8388608), Fin (5 / 16777216)] @ replicate 95 (Fin 0)) =
      [Fin (351023148012207 / 8796093022208), Fin (1057172307499689 / 17592186044416), Fin (14676561 / 281474976710656), Fin (841 / 70368744177664), Fin (25 / 281474976710656)] @ replicate 95 (Fin 0)"
    by (simp add: fraction_sq_1 fraction_sq_2 fraction_sq_3 fraction_sq_4 fraction_sq_5 sq_dev_same)
  have x: "rms_noise binary64 ([Fin (105984625 / 16777216), Fin (130056745 / 16777216), Fin (3831 / 16777216), Fin (29 / 8388608), Fin (5 / 16777216)] @ replicate 95 (Fin 0)) (Fin 0) (Fin 1000) =
      Fin (8796093022207999 / 8796093022208)"
    by (simp only: rms_noise_binary64 [OF len] sq fraction_sum fraction_finish)
  have length_batch: "length fraction_batch = 100"
    by (simp add: fraction_batch_def)
  then have all: "take 100 fraction_batch = fraction_batch" and enough: "100 \<le> length fraction_batch"
    by simp_all
  have mx: "map mtd_x fraction_batch = [Fin (105984625 / 16777216), Fin (130056745 / 16777216), Fin (3831 / 16777216), Fin (29 / 8388608), Fin (5 / 16777216)] @ replicate 95 (Fin 0)"
    by (simp add: fraction_batch_def fraction_sample_def zero_sample_def)
  have my: "map mtd_y fraction_batch = [Fin 0, Fin 0, Fin 0, Fin 0, Fin 0] @ replicate 95 (Fin 0)"
    by (simp only: fraction_batch_def fraction_sample_def zero_sample_def map_append list.map
        map_replicate bmm350_mag_temp_data.select_convs)
  have mz: "map mtd_z fraction_batch = [Fin 0, Fin 0, Fin 0, Fin 0, Fin 0] @ replicate 95 (Fin 0)"
    by (simp only: fraction_batch_def fraction_sample_def zero_sample_def map_append list.map
        map_replicate bmm350_mag_temp_data.select_convs)
  show ?thesis
    by (simp only: noise_levels_axes [OF enough] all mx my mz zero_mean_def
        bmm350_mag_data.select_convs x rep zero)
qed

theorem mean_square_one_counterexample:
  "length fraction_batch = 100 \<and>
   deviations binary64 (md_x zero_mean) (map mtd_x fraction_batch) = map Fin fraction_deviations \<and>
   mean_square fraction_deviations = 1 \<and>
   noise_levels binary64 fraction_batch zero_mean =
     Inr \<lparr> noise_level_x = Fin (8796093022207999 / 8796093022208), noise_level_y = Fin 0,
           noise_level_z = Fin 0 \<rparr> \<and>
   Fin (8796093022207999 / 8796093022208) \<noteq> Fin 1000"
proof -
  have exact: "round_double (of_int k * 2 powi (- 24)) = Fin (of_int k * 2 powi (- 24))"
    if "0 < k" "k \<le> 2 ^ 53" for k
    using that by (intro round_double_int_pow) simp_all
  have dev: "deviations binary64 (md_x zero_mean) (map mtd_x fraction_batch) = map Fin fraction_deviations"
    using exact [of 105984625] exact [of 130056745] exact [of 3831] exact [of 58] exact [of 5]
    by (simp add: deviations_def fraction_batch_def fraction_sample_def fraction_deviations_def
        zero_sample_def zero_mean_def double_sub_Fin)
  have ms: "mean_square fraction_deviations = 1"
    by (simp add: mean_square_def fraction_deviations_def sum_list_replicate)
  have "length fraction_batch = 100"
    by (simp add: fraction_batch_def)
  with dev ms fraction_levels show ?thesis
    by simp
qed

theorem mean_square_one_gives_1000_witness:
  "100 \<le> length far_batch \<and> 100 \<le> length far_batch_exact \<and>
   deviations binary64 (md_x zero_mean) (map mtd_x (take 100 far_batch)) =
     map Fin (map of_int (10 # replicate 99 0)) \<and>
   mean_square (map of_int (10 # replicate 99 0) :: rat list) = 1 \<and>
   mean_square (deviations exact (md_x zero_mean_exact) (map mtd_x (take 100 far_batch_exact))) = 1 \<and>
   (\<exists>r e. noise_levels binary64 far_batch zero_mean = Inr r \<and>
      noise_levels exact far_batch_exact zero_mean_exact = Inr e \<and>
      noise_level_x r = Fin 1000 \<and> noise_level_x e = 1000)"
proof -
  have l: "100 \<le> length far_batch" "100 \<le> length far_batch_exact"
    by (simp_all add: far_batch_def far_batch_exact_def)
  have dev: "deviations binary64 (md_x zero_mean) (map mtd_x (take 100 far_batch)) =
     map Fin (map of_int (10 # replicate 99 0))"
    using round_double_of_int [of 10]
    by (simp add: deviations_def far_batch_def small_sample_def zero_sample_def zero_mean_def
        double_sub_Fin)
  have ms: "mean_square (map of_int (10 # replicate 99 0) :: rat list) = 1"
    by (simp add: mean_square_def sum_list_replicate)
  have ems: "mean_square (deviations exact (md_x zero_mean_exact) (map mtd_x (take 100 far_batch_exact))) = 1"
    by (simp add: mean_square_def deviations_def far_batch_exact_def small_sample_exact_def
        zero_sample_exact_def zero_mean_exact_def sum_list_replicate)
  from mean_square_one_gives_1000 [OF l, of zero_mean zero_mean_exact] dev ms ems
  have "\<exists>r e. noise_levels binary64 far_batch zero_mean = Inr r \<and>
      noise_levels exact far_batch_exact zero_mean_exact = Inr e \<and>
      noise_level_x r = Fin 1000 \<and> noise_level_x e = 1000"
    by blast
  with l dev ms ems show ?thesis
    by (intro conjI)
qed

end
